theory Spec2Isabelle
  imports Main "HOL-Library.Word"
begin

unbundle bit_operations_syntax

section \<open>Bytes, C strings and memory\<close>

text \<open>
  A byte of the file image or of a heap block is an 8-bit word. A C string (a
  \<^verbatim>\<open>const char *\<close> argument of \<^verbatim>\<open>strlen\<close>, \<^verbatim>\<open>strdup\<close>, \<^verbatim>\<open>strcmp\<close>,
  \<^verbatim>\<open>hash_key\<close>) is represented by the list of its bytes before the terminating
  NUL; so \<^verbatim>\<open>strlen\<close> is \<open>length\<close> and \<^verbatim>\<open>strcmp(a, b) == 0\<close> is \<open>a = b\<close>.
  Sizes and indices of type \<^verbatim>\<open>size_t\<close> are natural numbers: they count bytes
  or slots of blocks that exist in memory and never reach the wrap-around.
  Allocation failure (\<^verbatim>\<open>malloc\<close> returning NULL) is not modelled.
\<close>

type_synonym byte = "8 word"

definition bytes_of :: "string \<Rightarrow> byte list" where
  "bytes_of s = map of_char s"

text \<open>
  \<^verbatim>\<open>memcpy(mem + a, bs, length bs)\<close> and every other store of a byte sequence at
  an address; the store is inside the block whenever \<open>a + length bs \<le> length mem\<close>.
\<close>

definition memcpy :: "byte list \<Rightarrow> nat \<Rightarrow> byte list \<Rightarrow> byte list" where
  "memcpy mem a bs = take a mem @ bs @ drop (a + length bs) mem"

text \<open>
  \<^verbatim>\<open>realloc(p, n)\<close>: the content is kept up to the smaller of the old and the new
  size. Fresh bytes are indeterminate in C; the model fills them with 0, and no
  theorem below reads a byte that has not been written.
\<close>

definition realloc :: "byte list \<Rightarrow> nat \<Rightarrow> byte list" where
  "realloc p n = take n p @ replicate (n - length p) 0"

text \<open>A little-endian 32-bit store (\<^verbatim>\<open>DWORD\<close>) and load.\<close>

definition store32 :: "32 word \<Rightarrow> byte list" where
  "store32 w = [ucast w, ucast (drop_bit 8 w), ucast (drop_bit 16 w), ucast (drop_bit 24 w)]"

definition load32 :: "byte list \<Rightarrow> nat \<Rightarrow> 32 word" where
  "load32 mem a =
     ucast (mem ! a) OR push_bit 8 (ucast (mem ! (a + 1)))
       OR push_bit 16 (ucast (mem ! (a + 2))) OR push_bit 24 (ucast (mem ! (a + 3)))"

section \<open>Buffer (smclib.c)\<close>

record buf_t =
  size_buf :: nat
  cnt :: nat
  buf :: "byte list"

definition BUF_INIT_SIZE :: nat where
  "BUF_INIT_SIZE = 256"

definition new_buf :: buf_t where
  "new_buf = \<lparr>size_buf = BUF_INIT_SIZE, cnt = 0, buf = replicate BUF_INIT_SIZE 0\<rparr>"

text \<open>
  The loop \<^verbatim>\<open>while (buf->cnt + len > buf->size) buf->buf = realloc(buf->buf, buf->size <<= 1);\<close>
  of \<^verbatim>\<open>buf_cat\<close>. A buffer of size 0 would never leave it, so the loop is a
  partial function and \<open>None\<close> stands for not returning.
\<close>

partial_function (option) buf_enlarge :: "buf_t \<Rightarrow> nat \<Rightarrow> buf_t option" where
  "buf_enlarge b len =
     (if cnt b + len > size_buf b
      then buf_enlarge (b\<lparr>size_buf := push_bit 1 (size_buf b),
                          buf := realloc (buf b) (push_bit 1 (size_buf b))\<rparr>) len
      else Some b)"

declare buf_enlarge.simps [code]

definition buf_cat :: "buf_t \<Rightarrow> byte list \<Rightarrow> (nat \<times> buf_t) option" where
  "buf_cat b s =
     (let len = length s + 1 in
      case buf_enlarge b len of
        None \<Rightarrow> None
      | Some b1 \<Rightarrow>
          Some (cnt b1, b1\<lparr>buf := memcpy (buf b1) (cnt b1) (s @ [0]), cnt := cnt b1 + len\<rparr>))"

text \<open>Well-formed buffer states: what \<^verbatim>\<open>new_buf\<close> creates and \<^verbatim>\<open>buf_cat\<close> keeps.\<close>

definition buf_wf :: "buf_t \<Rightarrow> bool" where
  "buf_wf b \<longleftrightarrow> 0 < size_buf b \<and> cnt b \<le> size_buf b \<and> length (buf b) = size_buf b"

section \<open>Error handling (smclib.c)\<close>

text \<open>
  \<^verbatim>\<open>error(fmt, ...)\<close> prints a message to the standard error stream and jumps to
  the \<^verbatim>\<open>setjmp\<close> in \<^verbatim>\<open>main\<close>, which returns 1. A computation that calls it
  yields \<open>Inl\<close> of the error; \<open>error_message\<close> is the printed text.
  \<open>OutOfBounds\<close> is not raised by \<^verbatim>\<open>error\<close>: it marks a read of a string that
  runs past the end of the file image, where the behaviour of the program is
  undefined and the model stops.
\<close>

datatype error = MemoryAllocationFailed | CannotFindSymbol "byte list" | OutOfBounds

fun error_message :: "error \<Rightarrow> byte list" where
  "error_message MemoryAllocationFailed = bytes_of ''Memory allocation failed.''"
| "error_message (CannotFindSymbol old) =
     bytes_of ''Cannot find symbol '' @ [0x27] @ old @ [0x27] @ bytes_of ''.''"
| "error_message OutOfBounds = []"

text \<open>A pointer that may be NULL is an option; \<^verbatim>\<open>check_ptr\<close> raises on NULL.\<close>

definition check_ptr :: "'a option \<Rightarrow> error + 'a" where
  "check_ptr ptr = (case ptr of None \<Rightarrow> Inl MemoryAllocationFailed | Some p \<Rightarrow> Inr p)"

text \<open>
  \<^verbatim>\<open>strdup\<close> returns a fresh copy of a string. The program is built against the
  Windows C runtime (it includes \<^verbatim>\<open>windows.h\<close>), whose \<^verbatim>\<open>strdup\<close> returns NULL
  for a NULL argument; elsewhere the call is undefined.
\<close>

definition strdup :: "byte list option \<Rightarrow> byte list option" where
  "strdup s = (case s of None \<Rightarrow> None | Some bs \<Rightarrow> Some bs)"

section \<open>Dictionary (smclib.h, smclib.c)\<close>

text \<open>
  \<^verbatim>\<open>hash_t\<close> is \<^verbatim>\<open>size_t\<close>: the type \<open>'h\<close> of the records is always a word type
  \<open>'w word\<close>, whose width \<open>'w\<close> is that of the target (32 or 64 bits). The list
  \<open>entries\<close> holds the initialised part \<^verbatim>\<open>entries[0 .. count)\<close> of the array of entry
  pointers, so \<^verbatim>\<open>count\<close> is its length. A slot of \<open>indices\<close> is \<open>None\<close> for
  \<^verbatim>\<open>IDX_EMPTY\<close> and \<open>Some e\<close> for the entry number \<open>e\<close>.
\<close>

record 'h entry_t =
  hash :: 'h
  key :: "byte list"
  val :: "byte list option"

record 'h dict_t =
  entries :: "'h entry_t list"
  indices :: "nat option list"
  size_bits :: nat

definition count :: "('w::len) word dict_t \<Rightarrow> nat" where
  "count d = length (entries d)"

definition DICT_INIT_BITS :: nat where
  "DICT_INIT_BITS = 5"

definition DICT_SIZE :: "('w::len) word dict_t \<Rightarrow> nat" where
  "DICT_SIZE d = push_bit (size_bits d) 1"

definition DICT_MASK :: "('w::len) word dict_t \<Rightarrow> nat" where
  "DICT_MASK d = DICT_SIZE d - 1"

definition NEXT_INDEX :: "('w::len) word dict_t \<Rightarrow> nat \<Rightarrow> nat" where
  "NEXT_INDEX d i = (i * 5 + 1) AND DICT_MASK d"

definition GET_ENTRY :: "('w::len) word dict_t \<Rightarrow> nat \<Rightarrow> nat option" where
  "GET_ENTRY d i = indices d ! i"

definition IS_ENTRY :: "('w::len) word entry_t \<Rightarrow> 'w word \<Rightarrow> byte list \<Rightarrow> bool" where
  "IS_ENTRY ent h k \<longleftrightarrow> hash ent = h \<and> key ent = k"

abbreviation IDX_EMPTY :: "nat option" where
  "IDX_EMPTY \<equiv> None"

definition new_dict :: "('w::len) word dict_t" where
  "new_dict = \<lparr>entries = [], indices = replicate (push_bit DICT_INIT_BITS 1) IDX_EMPTY,
                size_bits = DICT_INIT_BITS\<rparr>"

text \<open>\<^verbatim>\<open>h += (h << 5) + (h >> 27) + *k++\<close> over the bytes of the key, from \<open>h = 1\<close>.\<close>

fun hash_loop :: "('w::len) word \<Rightarrow> byte list \<Rightarrow> 'w word" where
  "hash_loop h [] = h"
| "hash_loop h (k # ks) = hash_loop (h + (push_bit 5 h + drop_bit 27 h + ucast k)) ks"

definition hash_key :: "byte list \<Rightarrow> ('w::len) word" where
  "hash_key k = hash_loop 1 k"

text \<open>
  The inner loop of \<^verbatim>\<open>expand_dict\<close>: from slot \<open>i\<close>, follow \<^verbatim>\<open>NEXT_INDEX\<close> to
  the first empty slot. \<open>None\<close> stands for not returning.
\<close>

partial_function (option) expand_probe :: "('w::len) word dict_t \<Rightarrow> nat \<Rightarrow> nat option" where
  "expand_probe d i =
     (if GET_ENTRY d i \<noteq> IDX_EMPTY then expand_probe d (NEXT_INDEX d i) else Some i)"

declare expand_probe.simps [code]

text \<open>The loop \<^verbatim>\<open>for (e = 0; e < dict->count; ++e)\<close> of \<^verbatim>\<open>expand_dict\<close>, from \<open>e\<close> on.\<close>

function expand_loop :: "('w::len) word dict_t \<Rightarrow> nat \<Rightarrow> 'w word dict_t option" where
  "expand_loop d e =
     (if e < count d
      then (case expand_probe d (unat (hash (entries d ! e)) AND DICT_MASK d) of
              None \<Rightarrow> None
            | Some i \<Rightarrow> expand_loop (d\<lparr>indices := (indices d)[i := Some e]\<rparr>) (e + 1))
      else Some d)"
  by pat_completeness auto
termination
  by (relation "measure (\<lambda>(d, e). count d - e)") (auto simp: count_def)

declare expand_loop.simps [simp del]

definition expand_dict :: "('w::len) word dict_t \<Rightarrow> 'w word dict_t option" where
  "expand_dict d =
     (let d1 = d\<lparr>size_bits := size_bits d + 1\<rparr>;
          d2 = d1\<lparr>indices := replicate (DICT_SIZE d1) IDX_EMPTY\<rparr>
      in expand_loop d2 0)"

text \<open>
  The probing loop of \<^verbatim>\<open>dict_add\<close>: it leaves either through the \<^verbatim>\<open>return\<close> at
  an entry that matches (\<open>Found e\<close>) or at an empty slot (\<open>Vacant i\<close>).
\<close>

datatype probe = Found nat | Vacant nat

partial_function (option) dict_add_probe ::
  "('w::len) word dict_t \<Rightarrow> 'w word \<Rightarrow> byte list \<Rightarrow> nat \<Rightarrow> probe option" where
  "dict_add_probe d h k i =
     (case GET_ENTRY d i of
        None \<Rightarrow> Some (Vacant i)
      | Some e \<Rightarrow>
          if IS_ENTRY (entries d ! e) h k then Some (Found e)
          else dict_add_probe d h k (NEXT_INDEX d i))"

declare dict_add_probe.simps [code]

text \<open>
  \<^verbatim>\<open>dict_add\<close> on a dictionary that exists (the pointer is the one \<^verbatim>\<open>new_dict\<close>
  returned, never NULL). The result is \<open>None\<close> when a probing loop does not return,
  \<open>Some (Inl err)\<close> when \<^verbatim>\<open>error\<close> is called, and otherwise the returned
  \<^verbatim>\<open>bool\<close> with the dictionary after the call.
\<close>

definition dict_add ::
  "('w::len) word dict_t \<Rightarrow> byte list \<Rightarrow> byte list option
     \<Rightarrow> (error + bool \<times> 'w word dict_t) option" where
  "dict_add d k v =
     (let h = hash_key k in
      case dict_add_probe d h k (unat h AND DICT_MASK d) of
        None \<Rightarrow> None
      | Some (Found e) \<Rightarrow>
          (case check_ptr (strdup v) of
             Inl err \<Rightarrow> Some (Inl err)
           | Inr v' \<Rightarrow>
               Some (Inr (True, d\<lparr>entries := (entries d)[e := (entries d ! e)\<lparr>val := Some v'\<rparr>]\<rparr>)))
      | Some (Vacant i) \<Rightarrow>
          if v \<noteq> None then Some (Inr (False, d))
          else
            let d1 = d\<lparr>indices := (indices d)[i := Some (count d)],
                       entries := entries d @ [\<lparr>hash = h, key = k, val = None\<rparr>]\<rparr>
            in if count d1 > DICT_SIZE d1 * 2 div 3
               then (case expand_dict d1 of
                       None \<Rightarrow> None
                     | Some d2 \<Rightarrow> Some (Inr (True, d2)))
               else Some (Inr (True, d1)))"

section \<open>Renaming (smc.c)\<close>

definition change_symbol_name ::
  "('w::len) word dict_t \<Rightarrow> byte list \<Rightarrow> byte list \<Rightarrow> (error + 'w word dict_t) option" where
  "change_symbol_name d old new =
     (case dict_add d old (Some new) of
        None \<Rightarrow> None
      | Some (Inl err) \<Rightarrow> Some (Inl err)
      | Some (Inr (ok, d')) \<Rightarrow>
          if \<not> ok then Some (Inl (CannotFindSymbol old)) else Some (Inr d'))"

text \<open>The name that re-emission writes for an entry: \<^verbatim>\<open>entry->val ? : entry->key\<close>.\<close>

definition effective_name :: "('w::len) word entry_t \<Rightarrow> byte list" where
  "effective_name ent = (case val ent of Some v \<Rightarrow> v | None \<Rightarrow> key ent)"

text \<open>
  The loop of \<^verbatim>\<open>main\<close> over the \<^verbatim>\<open>old new\<close> pairs, as far as the dictionary is
  concerned: the pairs come from the command line or a list file, in order.
\<close>

fun change_symbol_names ::
  "('w::len) word dict_t \<Rightarrow> (byte list \<times> byte list) list \<Rightarrow> (error + 'w word dict_t) option" where
  "change_symbol_names d [] = Some (Inr d)"
| "change_symbol_names d ((old, new) # ps) =
     (case change_symbol_name d old new of
        None \<Rightarrow> None
      | Some (Inl err) \<Rightarrow> Some (Inl err)
      | Some (Inr d') \<Rightarrow> change_symbol_names d' ps)"

section \<open>Symbol table (smc.c)\<close>

text \<open>
  The memory \<open>mem\<close> is the file image from the start of the symbol table to its end:
  \<open>nsym\<close> records of \<^verbatim>\<open>IMAGE_SIZEOF_SYMBOL\<close> bytes, then the string table, so that
  \<^verbatim>\<open>symtab\<close> is address 0 and \<^verbatim>\<open>strtab = symtab + nsym\<close> is address \<open>sym_addr nsym\<close>.

  Modelled from the spec: the name of a record is either 8 inline bytes or a
  discriminator (first 4 bytes zero) and a 4-byte unsigned offset into the string
  table, and a record counts its auxiliary records. The type \<^verbatim>\<open>IMAGE_SYMBOL\<close> and
  the constant \<^verbatim>\<open>IMAGE_SIZEOF_SYMBOL\<close> are declared in \<^verbatim>\<open>windows.h\<close>, not in the
  repository; their layout (packed, little endian) is: the name \<^verbatim>\<open>N\<close> in bytes 0 to
  7, which is either \<^verbatim>\<open>ShortName[8]\<close> or the two \<^verbatim>\<open>DWORD\<close>s \<^verbatim>\<open>Name.Short\<close> and
  \<^verbatim>\<open>Name.Long\<close>; \<^verbatim>\<open>Value\<close> in bytes 8 to 11, \<^verbatim>\<open>SectionNumber\<close> in 12 and 13,
  \<^verbatim>\<open>Type\<close> in 14 and 15, \<^verbatim>\<open>StorageClass\<close> in 16 and \<^verbatim>\<open>NumberOfAuxSymbols\<close> in
  byte 17, 18 bytes in all.
\<close>

definition IMAGE_SIZEOF_SYMBOL :: nat where
  "IMAGE_SIZEOF_SYMBOL = 18"

definition sym_addr :: "nat \<Rightarrow> nat" where
  "sym_addr i = i * IMAGE_SIZEOF_SYMBOL"

definition Name_Short :: "byte list \<Rightarrow> nat \<Rightarrow> 32 word" where
  "Name_Short mem i = load32 mem (sym_addr i)"

definition Name_Long :: "byte list \<Rightarrow> nat \<Rightarrow> 32 word" where
  "Name_Long mem i = load32 mem (sym_addr i + 4)"

definition ShortName :: "byte list \<Rightarrow> nat \<Rightarrow> byte list" where
  "ShortName mem i = take 8 (drop (sym_addr i) mem)"

definition NumberOfAuxSymbols :: "byte list \<Rightarrow> nat \<Rightarrow> nat" where
  "NumberOfAuxSymbols mem i = unat (mem ! (sym_addr i + 17))"

text \<open>
  The C string that starts at address \<open>a\<close>: the bytes up to the first NUL at or
  after \<open>a\<close>, wherever that is; \<open>None\<close> when there is none before the end.
\<close>

definition c_string :: "byte list \<Rightarrow> nat \<Rightarrow> byte list option" where
  "c_string mem a =
     (if 0 \<in> set (drop a mem) then Some (takeWhile (\<lambda>b. b \<noteq> 0) (drop a mem)) else None)"

text \<open>
  \<^verbatim>\<open>sym->N.Name.Short ? sym->N.ShortName : strtab + sym->N.Name.Long\<close>, read as the
  string that \<^verbatim>\<open>dict_add\<close> hashes and copies; \<^verbatim>\<open>strtab\<close> is \<^verbatim>\<open>symtab + nsym\<close>.
\<close>

definition symbol_name :: "byte list \<Rightarrow> nat \<Rightarrow> nat \<Rightarrow> byte list option" where
  "symbol_name mem nsym i =
     (if Name_Short mem i \<noteq> 0 then c_string mem (sym_addr i)
      else c_string mem (sym_addr nsym + unat (Name_Long mem i)))"

text \<open>The loop of \<^verbatim>\<open>get_symbol_names\<close>, from record \<open>i\<close> on.\<close>

function get_symbol_names_loop ::
  "byte list \<Rightarrow> nat \<Rightarrow> nat \<Rightarrow> ('w::len) word dict_t \<Rightarrow> (error + 'w word dict_t) option" where
  "get_symbol_names_loop mem nsym i d =
     (if i < nsym
      then (case symbol_name mem nsym i of
              None \<Rightarrow> Some (Inl OutOfBounds)
            | Some s \<Rightarrow>
                (case dict_add d s None of
                   None \<Rightarrow> None
                 | Some (Inl err) \<Rightarrow> Some (Inl err)
                 | Some (Inr (ok, d')) \<Rightarrow>
                     get_symbol_names_loop mem nsym (i + NumberOfAuxSymbols mem i + 1) d'))
      else Some (Inr d))"
  by pat_completeness auto
termination
  by (relation "measure (\<lambda>(mem, nsym, i, d). nsym - i)") auto

declare get_symbol_names_loop.simps [simp del]

definition get_symbol_names ::
  "byte list \<Rightarrow> nat \<Rightarrow> (error + ('w::len) word dict_t) option" where
  "get_symbol_names mem nsym = get_symbol_names_loop mem nsym 0 new_dict"

text \<open>\<^verbatim>\<open>strncpy(dest, s, 8)\<close>: at most 8 bytes of \<open>s\<close>, padded with NUL to 8 bytes.\<close>

definition strncpy8 :: "byte list \<Rightarrow> byte list" where
  "strncpy8 s = take 8 s @ replicate (8 - length s) 0"

text \<open>
  The body of the re-emission loop of \<^verbatim>\<open>main\<close> for the name \<open>s\<close> and the record
  \<open>p\<close> that \<^verbatim>\<open>sym\<close> points to.
\<close>

definition emit_symbol ::
  "byte list \<Rightarrow> nat \<Rightarrow> buf_t \<Rightarrow> byte list \<Rightarrow> (byte list \<times> buf_t) option" where
  "emit_symbol mem p b s =
     (if length s \<le> 8 then Some (memcpy mem (sym_addr p) (strncpy8 s), b)
      else case buf_cat b s of
             None \<Rightarrow> None
           | Some (offset, b') \<Rightarrow>
               Some (memcpy (memcpy mem (sym_addr p) (store32 0)) (sym_addr p + 4)
                       (store32 (of_nat offset)), b'))"

text \<open>
  The loop \<^verbatim>\<open>for (e = 0; e < dict->count; ++e)\<close> of \<^verbatim>\<open>main\<close> over the entries still
  to emit, with \<^verbatim>\<open>sym\<close> at record \<open>p\<close>.
\<close>

fun emit_loop ::
  "('w::len) word entry_t list \<Rightarrow> nat \<Rightarrow> byte list \<Rightarrow> buf_t \<Rightarrow> (byte list \<times> buf_t) option" where
  "emit_loop [] p mem b = Some (mem, b)"
| "emit_loop (entry # es) p mem b =
     (case emit_symbol mem p b (effective_name entry) of
        None \<Rightarrow> None
      | Some (mem', b') \<Rightarrow> emit_loop es (p + (NumberOfAuxSymbols mem' p + 1)) mem' b')"

text \<open>
  Lines 113 to 129 of \<^verbatim>\<open>main\<close>: a new buffer whose \<^verbatim>\<open>cnt\<close> is set to 4, the loop,
  and the store \<^verbatim>\<open>*(DWORD*)buf->buf = buf->cnt\<close>. The result is the memory with the
  rewritten records and the buffer, of which \<^verbatim>\<open>main\<close> writes the first \<^verbatim>\<open>cnt\<close>
  bytes as the new string table.
\<close>

definition reemit ::
  "('w::len) word dict_t \<Rightarrow> byte list \<Rightarrow> (byte list \<times> buf_t) option" where
  "reemit d mem =
     (case emit_loop (entries d) 0 mem (new_buf\<lparr>cnt := 4\<rparr>) of
        None \<Rightarrow> None
      | Some (mem', b) \<Rightarrow> Some (mem', b\<lparr>buf := memcpy (buf b) 0 (store32 (of_nat (cnt b)))\<rparr>))"

section \<open>Notions used to state the properties\<close>

text \<open>The slot reached from slot \<open>i\<close> after \<open>n\<close> probing steps in a table of \<open>2 ^ bits\<close> slots.\<close>

definition probe_step :: "nat \<Rightarrow> nat \<Rightarrow> nat" where
  "probe_step bits i = (i * 5 + 1) mod 2 ^ bits"

definition probe_path :: "nat \<Rightarrow> nat \<Rightarrow> nat \<Rightarrow> nat" where
  "probe_path bits i n = (probe_step bits ^^ n) i"

text \<open>The slot where probing for a hash value starts.\<close>

definition home :: "nat \<Rightarrow> ('w::len) word \<Rightarrow> nat" where
  "home bits h = unat h mod 2 ^ bits"

text \<open>
  Entry \<open>e\<close> with hash \<open>h\<close> is placed: its number stands in a slot on the probe path
  from its home slot, and every slot before it on the path holds another entry.
\<close>

definition placed :: "nat \<Rightarrow> nat option list \<Rightarrow> ('w::len) word \<Rightarrow> nat \<Rightarrow> bool" where
  "placed bits idx h e \<longleftrightarrow>
     (\<exists>n. idx ! probe_path bits (home bits h) n = Some e
        \<and> (\<forall>m<n. \<exists>e'. idx ! probe_path bits (home bits h) m = Some e' \<and> e' \<noteq> e))"

definition occupied :: "nat option list \<Rightarrow> nat" where
  "occupied idx = length (filter (\<lambda>x. x \<noteq> None) idx)"

text \<open>
  The part of the invariant that holds in the middle of \<^verbatim>\<open>dict_add\<close>, and the
  invariant between calls, which adds the bound on the load.
\<close>

definition dict_core :: "('w::len) word dict_t \<Rightarrow> bool" where
  "dict_core d \<longleftrightarrow>
     length (indices d) = 2 ^ size_bits d
     \<and> (\<forall>i e. i < 2 ^ size_bits d \<and> indices d ! i = Some e \<longrightarrow> e < count d)
     \<and> occupied (indices d) \<le> count d
     \<and> distinct (map key (entries d))
     \<and> (\<forall>e<count d. hash (entries d ! e) = hash_key (key (entries d ! e)))
     \<and> (\<forall>e<count d. placed (size_bits d) (indices d) (hash (entries d ! e)) e)"

definition dict_inv :: "('w::len) word dict_t \<Rightarrow> bool" where
  "dict_inv d \<longleftrightarrow> dict_core d \<and> count d \<le> DICT_SIZE d * 2 div 3"

text \<open>The dictionaries that the program can build.\<close>

inductive reachable :: "('w::len) word dict_t \<Rightarrow> bool" where
  new: "reachable new_dict"
| add: "reachable d \<Longrightarrow> dict_add d k v = Some (Inr (ok, d')) \<Longrightarrow> reachable d'"

text \<open>
  \<^verbatim>\<open>dict_add(dict, s, NULL)\<close> for each name of a list in order, which is what
  \<^verbatim>\<open>get_symbol_names\<close> does to the dictionary with the names it decodes.
\<close>

fun dict_add_all ::
  "('w::len) word dict_t \<Rightarrow> byte list list \<Rightarrow> (error + 'w word dict_t) option" where
  "dict_add_all d [] = Some (Inr d)"
| "dict_add_all d (s # ss) =
     (case dict_add d s None of
        None \<Rightarrow> None
      | Some (Inl err) \<Rightarrow> Some (Inl err)
      | Some (Inr (ok, d')) \<Rightarrow> dict_add_all d' ss)"

text \<open>
  The records that the traversal of \<^verbatim>\<open>get_symbol_names\<close> visits from record \<open>i\<close> on
  (the primary records), in order.
\<close>

function primaries :: "byte list \<Rightarrow> nat \<Rightarrow> nat \<Rightarrow> nat list" where
  "primaries mem nsym i =
     (if i < nsym then i # primaries mem nsym (i + NumberOfAuxSymbols mem i + 1) else [])"
  by pat_completeness auto
termination
  by (relation "measure (\<lambda>(mem, nsym, i). nsym - i)") auto

declare primaries.simps [simp del]

text \<open>
  The value of the entry with key \<open>k\<close> after the renames \<open>rs\<close> have been applied in
  order, starting from the value \<open>v\<close>.
\<close>

fun apply_renames ::
  "(byte list \<times> byte list) list \<Rightarrow> byte list \<Rightarrow> byte list option \<Rightarrow> byte list option" where
  "apply_renames [] k v = v"
| "apply_renames ((old, new) # rs) k v = apply_renames rs k (if old = k then Some new else v)"

text \<open>
  Record \<open>p\<close> of the memory \<open>mem\<close>, with the string table \<open>st\<close>, carries the name \<open>s\<close>:
  when \<open>s\<close> has at most 8 bytes, the 8 bytes of the name field are the bytes of \<open>s\<close>
  followed by NUL bytes up to 8 (none after a name of exactly 8 bytes); otherwise
  the first 4 bytes of the field are zero, and the next 4 are an offset at which
  \<open>st\<close> holds the bytes of \<open>s\<close> and a NUL, behind the 4 bytes of the length.
\<close>

definition carries :: "byte list \<Rightarrow> byte list \<Rightarrow> nat \<Rightarrow> byte list \<Rightarrow> bool" where
  "carries mem st p s \<longleftrightarrow>
     (if length s \<le> 8 then ShortName mem p = s @ replicate (8 - length s) 0
      else Name_Short mem p = 0
        \<and> (\<exists>off. Name_Long mem p = of_nat off \<and> 4 \<le> off
              \<and> take (length s + 1) (drop off st) = s @ [0]))"

text \<open>The memory \<open>mem'\<close> is \<open>mem\<close> except for the name fields of the records \<open>qs\<close>.\<close>

definition names_rewritten :: "byte list \<Rightarrow> byte list \<Rightarrow> nat list \<Rightarrow> bool" where
  "names_rewritten mem mem' qs \<longleftrightarrow>
     length mem' = length mem
     \<and> (\<forall>a<length mem. (\<forall>q\<in>set qs. a < sym_addr q \<or> sym_addr q + 8 \<le> a) \<longrightarrow> mem' ! a = mem ! a)"

text \<open>
  An example image: a symbol table of four records and its string table. Record 0
  is the symbol \<open>foo\<close> with one auxiliary record (record 1), record 2 is \<open>bar\<close>, and
  record 3 has its name \<open>averylongsymbolname\<close> at offset 4 of the string table.
\<close>

definition example_image :: "byte list" where
  "example_image =
     bytes_of ''foo'' @ [0, 0, 0, 0, 0] @ [0, 0, 0, 0, 1, 0, 0, 0, 2, 1]
     @ replicate 18 0x55
     @ bytes_of ''bar'' @ [0, 0, 0, 0, 0] @ [8, 0, 0, 0, 1, 0, 0, 0, 2, 0]
     @ [0, 0, 0, 0, 4, 0, 0, 0] @ [0, 0, 0, 0, 0, 0, 0, 0, 2, 0]
     @ [24, 0, 0, 0] @ bytes_of ''averylongsymbolname'' @ [0]"

section \<open>Buffer: proofs\<close>

lemma buf_wf_new_buf: "buf_wf new_buf"
  by (simp add: buf_wf_def new_buf_def BUF_INIT_SIZE_def)

lemma length_memcpy:
  "a + length bs \<le> length mem \<Longrightarrow> length (memcpy mem a bs) = length mem"
  by (simp add: memcpy_def)

lemma take_memcpy:
  "n \<le> a \<Longrightarrow> a \<le> length mem \<Longrightarrow> take n (memcpy mem a bs) = take n mem"
  by (simp add: memcpy_def min_def)

lemma drop_memcpy:
  "a \<le> length mem \<Longrightarrow> take (length bs) (drop a (memcpy mem a bs)) = bs"
  by (simp add: memcpy_def)

lemma length_realloc: "length (realloc p n) = n"
  by (simp add: realloc_def)

lemma take_realloc:
  "m \<le> length p \<Longrightarrow> m \<le> n \<Longrightarrow> take m (realloc p n) = take m p"
  by (simp add: realloc_def min_def)

text \<open>
  The enlarging loop returns after \<open>j\<close> doublings, where \<open>j\<close> is the least number of
  doublings that makes room.
\<close>

lemma buf_enlarge_doubles:
  assumes "size_buf b * 2 ^ j \<ge> cnt b + len"
    and "\<forall>i<j. size_buf b * 2 ^ i < cnt b + len"
    and "length (buf b) = size_buf b" and "cnt b \<le> size_buf b"
  shows "\<exists>b1. buf_enlarge b len = Some b1 \<and> size_buf b1 = size_buf b * 2 ^ j
           \<and> cnt b1 = cnt b \<and> length (buf b1) = size_buf b1
           \<and> take (cnt b) (buf b1) = take (cnt b) (buf b)"
  using assms
proof (induction j arbitrary: b)
  case 0
  then show ?case
    by (subst buf_enlarge.simps) simp
next
  case (Suc j)
  let ?b = "b\<lparr>size_buf := push_bit 1 (size_buf b),
                buf := realloc (buf b) (push_bit 1 (size_buf b))\<rparr>"
  from Suc.prems(2) have small: "size_buf b < cnt b + len"
    by (metis mult.right_neutral power_0 zero_less_Suc)
  have a1: "cnt ?b + len \<le> size_buf ?b * 2 ^ j"
    using Suc.prems(1) by (simp add: push_bit_eq_mult mult_ac)
  have a2: "\<forall>i<j. size_buf ?b * 2 ^ i < cnt ?b + len"
  proof (intro allI impI)
    fix i assume "i < j"
    then have "size_buf b * 2 ^ Suc i < cnt b + len"
      using Suc.prems(2) by (meson Suc_mono)
    then show "size_buf ?b * 2 ^ i < cnt ?b + len"
      by (simp add: push_bit_eq_mult mult_ac)
  qed
  have a3: "length (buf ?b) = size_buf ?b"
    by (simp add: length_realloc)
  have a4: "cnt ?b \<le> size_buf ?b"
    using Suc.prems(4) by (simp add: push_bit_eq_mult)
  from Suc.IH [OF a1 a2 a3 a4] obtain b1 where
    b1: "buf_enlarge ?b len = Some b1" "size_buf b1 = size_buf ?b * 2 ^ j"
      "cnt b1 = cnt ?b" "length (buf b1) = size_buf b1"
      "take (cnt ?b) (buf b1) = take (cnt ?b) (buf ?b)"
    by blast
  have keep: "take (cnt b) (buf ?b) = take (cnt b) (buf b)"
    using Suc.prems(3,4) by (simp add: take_realloc push_bit_eq_mult)
  have "buf_enlarge b len = Some b1"
    using small b1(1) by (subst buf_enlarge.simps) simp
  moreover have "size_buf b1 = size_buf b * 2 ^ Suc j"
    using b1(2) by (simp add: push_bit_eq_mult mult_ac)
  ultimately show ?case
    using b1(3,4,5) keep by simp
qed

text \<open>Some number of doublings always makes room when the size is positive.\<close>

lemma doublings_exist:
  assumes "0 < (s::nat)"
  shows "\<exists>j. n \<le> s * 2 ^ j \<and> (\<forall>i<j. s * 2 ^ i < n)"
proof -
  have "n < 2 ^ n" by (rule less_exp)
  also have "\<dots> \<le> s * 2 ^ n" using assms by simp
  finally have ex: "\<exists>j. n \<le> s * 2 ^ j" by (metis less_imp_le)
  define j where "j = (LEAST j. n \<le> s * 2 ^ j)"
  have "n \<le> s * 2 ^ j"
    unfolding j_def using ex by (rule LeastI_ex)
  moreover have "\<forall>i<j. s * 2 ^ i < n"
    unfolding j_def by (meson not_less_Least not_le)
  ultimately show ?thesis by blast
qed


lemma buf_cat_spec:
  assumes "buf_wf b"
  shows "\<exists>b' j. buf_cat b s = Some (cnt b, b')
           \<and> size_buf b' = size_buf b * 2 ^ j
           \<and> (\<forall>i<j. size_buf b * 2 ^ i < cnt b + (length s + 1))
           \<and> cnt b' = cnt b + (length s + 1)
           \<and> take (length s + 1) (drop (cnt b) (buf b')) = s @ [0]
           \<and> take (cnt b) (buf b') = take (cnt b) (buf b)
           \<and> buf_wf b'"
proof -
  let ?len = "length s + 1"
  from assms have pos: "0 < size_buf b" and le: "cnt b \<le> size_buf b"
    and len: "length (buf b) = size_buf b"
    by (simp_all add: buf_wf_def)
  from doublings_exist [OF pos, of "cnt b + ?len"] obtain j where
    j: "cnt b + ?len \<le> size_buf b * 2 ^ j" "\<forall>i<j. size_buf b * 2 ^ i < cnt b + ?len"
    by blast
  from buf_enlarge_doubles [OF j len le] obtain b1 where
    b1: "buf_enlarge b ?len = Some b1" "size_buf b1 = size_buf b * 2 ^ j"
      "cnt b1 = cnt b" "length (buf b1) = size_buf b1"
      "take (cnt b) (buf b1) = take (cnt b) (buf b)"
    by blast
  define b' where
    "b' = b1\<lparr>buf := memcpy (buf b1) (cnt b1) (s @ [0]), cnt := cnt b1 + ?len\<rparr>"
  have room: "cnt b + ?len \<le> length (buf b1)"
    using j(1) b1(2,4) by simp
  have r: "buf_cat b s = Some (cnt b, b')"
    using b1(1,3) by (simp add: buf_cat_def b'_def)
  have s1: "size_buf b' = size_buf b * 2 ^ j"
    using b1(2) by (simp add: b'_def)
  have s2: "cnt b' = cnt b + ?len"
    using b1(3) by (simp add: b'_def)
  have s3: "take ?len (drop (cnt b) (buf b')) = s @ [0]"
    using drop_memcpy [of "cnt b" "buf b1" "s @ [0]"] room b1(3) by (simp add: b'_def)
  have s4: "take (cnt b) (buf b') = take (cnt b) (buf b)"
    using take_memcpy [of "cnt b" "cnt b" "buf b1" "s @ [0]"] room b1(3,5)
    by (simp add: b'_def)
  have "length (buf b') = size_buf b'"
    using length_memcpy [of "cnt b" "s @ [0]" "buf b1"] room b1(3,4) by (simp add: b'_def)
  moreover have "0 < size_buf b'"
    using s1 pos by simp
  moreover have "cnt b' \<le> size_buf b'"
    using s1 s2 j(1) by simp
  ultimately have s5: "buf_wf b'"
    by (simp add: buf_wf_def)
  from r s1 j(2) s2 s3 s4 s5 show ?thesis
    by blast
qed

text \<open>
  C8. For every well-formed buffer and every string \<open>s\<close>, \<^verbatim>\<open>buf_cat\<close> returns; it
  has doubled the capacity \<open>j\<close> times, where \<open>j\<close> is the least number of doublings
  that makes room for \<open>s\<close> and its terminator; the returned offset is the logical
  length before the call; the bytes of \<open>s\<close> followed by NUL stand at that offset;
  the logical length has grown by \<open>length s + 1\<close>; and every byte below the old
  logical length (so every string appended earlier, at its returned offset) is
  unchanged. The resulting buffer is well-formed again, so this holds along any
  sequence of appends.
\<close>

theorem buf_cat_appends:
  assumes "buf_wf b"
  shows "\<exists>b' j. buf_cat b s = Some (cnt b, b')
           \<and> size_buf b' = size_buf b * 2 ^ j
           \<and> (\<forall>i<j. size_buf b * 2 ^ i < cnt b + (length s + 1))
           \<and> cnt b + (length s + 1) \<le> size_buf b'
           \<and> cnt b' = cnt b + (length s + 1)
           \<and> cnt b < cnt b'
           \<and> take (length s + 1) (drop (cnt b) (buf b')) = s @ [0]
           \<and> take (cnt b) (buf b') = take (cnt b) (buf b)
           \<and> buf_wf b'"
proof -
  from buf_cat_spec [OF assms, of s] obtain b' j where
    h: "buf_cat b s = Some (cnt b, b')" "size_buf b' = size_buf b * 2 ^ j"
      "\<forall>i<j. size_buf b * 2 ^ i < cnt b + (length s + 1)"
      "cnt b' = cnt b + (length s + 1)"
      "take (length s + 1) (drop (cnt b) (buf b')) = s @ [0]"
      "take (cnt b) (buf b') = take (cnt b) (buf b)" "buf_wf b'"
    by blast
  from h(4,7) have "cnt b + (length s + 1) \<le> size_buf b'" "cnt b < cnt b'"
    by (simp_all add: buf_wf_def)
  with h show ?thesis by blast
qed

theorem buf_cat_appends_witness:
  "buf_wf \<lparr>size_buf = 4, cnt = 4, buf = [1, 2, 3, 4]\<rparr>
   \<and> (\<exists>b'. buf_cat \<lparr>size_buf = 4, cnt = 4, buf = [1, 2, 3, 4]\<rparr> [97, 98] = Some (4, b')
          \<and> cnt b' = 7
          \<and> take 3 (drop 4 (buf b')) = [97, 98, 0]
          \<and> take 4 (buf b') = [1, 2, 3, 4])"
proof -
  have h: "buf_wf \<lparr>size_buf = 4, cnt = 4, buf = [1, 2, 3, 4]\<rparr>"
    by (simp add: buf_wf_def)
  from buf_cat_appends [OF h, of "[97, 98]"] show ?thesis
    using h by (auto simp: numeral_3_eq_3)
qed

section \<open>The probe sequence has full period\<close>

lemma pow5_mod8: "(5::nat) ^ d mod 8 = (if even d then 1 else 5)"
proof (induction d)
  case 0 show ?case by simp
next
  case (Suc d)
  have "(5::nat) ^ Suc d mod 8 = (5 * (5 ^ d mod 8)) mod 8"
    by (simp add: mod_mult_right_eq)
  then show ?case using Suc by simp
qed

lemma pow5_mod4: "(5::nat) ^ e mod 4 = 1"
proof (induction e)
  case 0 show ?case by simp
next
  case (Suc e)
  have "(5::nat) ^ Suc e mod 4 = (5 * (5 ^ e mod 4)) mod 4"
    by (simp add: mod_mult_right_eq)
  then show ?case using Suc by simp
qed

lemma odd_coprime_pow2: "odd (m::nat) \<Longrightarrow> coprime (2 ^ n) m"
  by (simp add: coprime_power_left_iff)

lemma pow2_dvd_odd_mult:
  assumes "(2::nat) ^ n dvd a * m" "odd m"
  shows "2 ^ n dvd a"
  using assms odd_coprime_pow2 [of m n] by (simp add: coprime_dvd_mult_left_iff)

lemma square_minus_one: "1 \<le> (x::nat) \<Longrightarrow> x * x - 1 = (x - 1) * (x + 1)"
proof -
  assume "1 \<le> x"
  then obtain y where "x = Suc y" by (cases x) auto
  then show ?thesis by (simp add: algebra_simps)
qed

lemma pow5_minus1_dvd:
  "0 < d \<Longrightarrow> (2::nat) ^ (j + 2) dvd 5 ^ d - 1 \<Longrightarrow> 2 ^ j dvd d"
proof (induction d arbitrary: j rule: less_induct)
  case (less d)
  show ?case
  proof (cases "even d")
    case False
    have "j = 0"
    proof (rule ccontr)
      assume "j \<noteq> 0"
      then obtain j' where "j = Suc j'" by (cases j) auto
      then have "(8::nat) dvd 2 ^ (j + 2)" by simp
      then have "(8::nat) dvd 5 ^ d - 1" using less.prems(2) by (rule dvd_trans)
      moreover have "(5::nat) ^ d mod 8 = 5" using False by (simp add: pow5_mod8)
      ultimately show False
        by presburger
    qed
    then show ?thesis by simp
  next
    case True
    then obtain e where e: "d = 2 * e" by (auto elim: evenE)
    with less.prems(1) have epos: "0 < e" "e < d" by simp_all
    show ?thesis
    proof (cases j)
      case 0 then show ?thesis by simp
    next
      case (Suc j')
      have "(5::nat) ^ d = 5 ^ e * 5 ^ e"
        using e by (simp add: power_add mult_2)
      then have fact: "(5::nat) ^ d - 1 = (5 ^ e - 1) * (5 ^ e + 1)"
        using square_minus_one [of "5 ^ e"] by simp
      have "(5::nat) ^ e mod 4 = 1" by (rule pow5_mod4)
      then have "\<exists>m. (5::nat) ^ e + 1 = 2 * m \<and> odd m"
        by presburger
      then obtain m where m: "(5::nat) ^ e + 1 = 2 * m" "odd m"
        by blast
      have "(5::nat) ^ d - 1 = ((5 ^ e - 1) * m) * 2"
        unfolding fact m(1) by (simp only: mult_ac)
      moreover have "(2::nat) ^ (j + 2) = 2 ^ (j' + 2) * 2"
        using Suc by simp
      ultimately have "(2::nat) ^ (j' + 2) * 2 dvd ((5 ^ e - 1) * m) * 2"
        using less.prems(2) by simp
      then have "(2::nat) ^ (j' + 2) dvd (5 ^ e - 1) * m"
        by (simp add: mult.commute)
      then have "(2::nat) ^ (j' + 2) dvd 5 ^ e - 1"
        using m(2) by (rule pow2_dvd_odd_mult)
      then have "2 ^ j' dvd e"
        using less.IH [OF epos(2) epos(1)] by simp
      then show ?thesis using e Suc by simp
    qed
  qed
qed

lemma pow5_order:
  assumes "0 < d" "d < 2 ^ k"
  shows "\<not> (2::nat) ^ (k + 2) dvd 5 ^ d - 1"
proof
  assume "(2::nat) ^ (k + 2) dvd 5 ^ d - 1"
  then have "2 ^ k dvd d" using assms(1) by (rule pow5_minus1_dvd [rotated])
  then have "2 ^ k \<le> d" using assms(1) by (rule dvd_imp_le)
  with assms(2) show False by simp
qed

lemma probe_step_closed:
  "(4 * probe_step k x + 1) mod 2 ^ (k + 2) = (5 * (4 * x + 1)) mod 2 ^ (k + 2)"
proof -
  define M :: nat where "M = 2 ^ (k + 2)"
  have M: "M = 4 * 2 ^ k" by (simp add: M_def)
  have "4 * probe_step k x = (4 * (x * 5 + 1)) mod M"
    unfolding M probe_step_def by (rule mult_mod_right)
  then have "(4 * probe_step k x + 1) mod M = ((4 * (x * 5 + 1)) mod M + 1) mod M"
    by simp
  also have "\<dots> = (4 * (x * 5 + 1) + 1) mod M"
    by (rule mod_add_left_eq)
  also have "4 * (x * 5 + 1) + 1 = 5 * (4 * x + 1)"
    by simp
  finally show ?thesis by (simp only: M_def)
qed

lemma probe_path_closed:
  "(4 * probe_path k s n + 1) mod 2 ^ (k + 2) = (5 ^ n * (4 * s + 1)) mod 2 ^ (k + 2)"
proof (induction n)
  case 0 show ?case by (simp add: probe_path_def)
next
  case (Suc n)
  define M :: nat where "M = 2 ^ (k + 2)"
  let ?x = "probe_path k s n"
  have "probe_path k s (Suc n) = probe_step k ?x"
    by (simp add: probe_path_def)
  then have "(4 * probe_path k s (Suc n) + 1) mod M = (5 * (4 * ?x + 1)) mod M"
    unfolding M_def by (simp only: probe_step_closed)
  also have "\<dots> = (5 * ((4 * ?x + 1) mod M)) mod M"
    by (simp only: mod_mult_right_eq)
  also have "\<dots> = (5 * ((5 ^ n * (4 * s + 1)) mod M)) mod M"
    using Suc unfolding M_def by (simp only:)
  also have "\<dots> = (5 * (5 ^ n * (4 * s + 1))) mod M"
    by (simp only: mod_mult_right_eq)
  also have "5 * (5 ^ n * (4 * s + 1)) = 5 ^ Suc n * (4 * s + 1)"
    by simp
  finally show ?case by (simp only: M_def)
qed

lemma probe_path_inj:
  assumes "a < b" "b < 2 ^ k"
  shows "probe_path k s a \<noteq> probe_path k s b"
proof
  assume eq: "probe_path k s a = probe_path k s b"
  define M :: nat where "M = 2 ^ (k + 2)"
  define X :: nat where "X = 5 ^ a * (4 * s + 1)"
  have "(5 ^ a * (4 * s + 1)) mod M = (5 ^ b * (4 * s + 1)) mod M"
    using probe_path_closed [of k s a] probe_path_closed [of k s b] eq
    unfolding M_def by (simp only:)
  moreover have pw: "(5::nat) ^ b = 5 ^ a * 5 ^ (b - a)"
    using assms(1) by (simp add: power_add [symmetric])
  have b: "5 ^ b * (4 * s + 1) = X * 5 ^ (b - a)"
    by (simp only: X_def pw mult_ac)
  ultimately have "(X * 5 ^ (b - a)) mod M = X mod M"
    by (simp add: X_def)
  moreover have "X \<le> X * 5 ^ (b - a)" by simp
  ultimately have "M dvd X * 5 ^ (b - a) - X"
    by (simp add: mod_eq_dvd_iff_nat)
  moreover have "(5 ^ (b - a) - 1) * X = 5 ^ (b - a) * X - 1 * X"
    by (rule diff_mult_distrib)
  then have "X * 5 ^ (b - a) - X = (5 ^ (b - a) - 1) * X"
    by (simp only: mult.commute mult_1 mult_1_right)
  moreover have "odd X" by (simp add: X_def)
  ultimately have "M dvd 5 ^ (b - a) - 1"
    unfolding M_def using pow2_dvd_odd_mult by metis
  moreover have "0 < b - a" "b - a < 2 ^ k" using assms by simp_all
  ultimately show False
    unfolding M_def using pow5_order by blast
qed

lemma probe_path_less:
  "s < 2 ^ k \<Longrightarrow> probe_path k s n < 2 ^ k"
  by (cases n) (simp_all add: probe_path_def probe_step_def)

text \<open>From every start the first \<open>2 ^ k\<close> slots of the path are all the slots, each once.\<close>

lemma probe_path_full_period:
  assumes "s < 2 ^ k"
  shows "bij_betw (probe_path k s) {..<2 ^ k} {..<2 ^ k}"
proof -
  have inj: "inj_on (probe_path k s) {..<2 ^ k}"
  proof (rule inj_onI)
    fix a b assume "a \<in> {..<(2::nat) ^ k}" "b \<in> {..<(2::nat) ^ k}"
      and eq: "probe_path k s a = probe_path k s b"
    then have "a < 2 ^ k" "b < 2 ^ k" by simp_all
    then show "a = b"
      using probe_path_inj [of a b k s] probe_path_inj [of b a k s] eq
      by (metis linorder_neqE_nat)
  qed
  have sub: "probe_path k s ` {..<2 ^ k} \<subseteq> {..<2 ^ k}"
    using probe_path_less [OF assms] by auto
  have "card (probe_path k s ` {..<2 ^ k}) = card {..<(2::nat) ^ k}"
    using inj by (rule card_image)
  with sub have "probe_path k s ` {..<2 ^ k} = {..<2 ^ k}"
    by (simp add: card_subset_eq)
  with inj show ?thesis by (simp add: bij_betw_def)
qed

section \<open>Probing in the dictionary\<close>

lemma and_mask_nat: "(x::nat) AND (push_bit n 1 - 1) = x mod 2 ^ n"
proof -
  have "(push_bit n 1 :: nat) - 1 = mask n"
    by (simp add: mask_eq_exp_minus_1 push_bit_of_1)
  then show ?thesis
    by (simp add: take_bit_eq_mod flip: take_bit_eq_mask)
qed

lemma DICT_SIZE_pow: "DICT_SIZE d = 2 ^ size_bits d"
  by (simp add: DICT_SIZE_def push_bit_of_1)

lemma NEXT_INDEX_step: "NEXT_INDEX d i = probe_step (size_bits d) i"
  unfolding NEXT_INDEX_def DICT_MASK_def DICT_SIZE_def probe_step_def by (rule and_mask_nat)

lemma home_mask: "unat h AND DICT_MASK d = home (size_bits d) h"
  unfolding DICT_MASK_def DICT_SIZE_def home_def by (rule and_mask_nat)

lemma home_less: "home bits h < 2 ^ bits"
  by (simp add: home_def)

lemma probe_path_0: "probe_path bits i 0 = i"
  by (simp add: probe_path_def)

lemma probe_path_Suc: "probe_path bits i (Suc n) = probe_path bits (probe_step bits i) n"
  by (simp add: probe_path_def funpow_swap1)

lemma probe_step_less: "probe_step bits i < 2 ^ bits"
  by (simp add: probe_step_def)

lemma dict_add_probe_found:
  assumes "indices d ! probe_path (size_bits d) i n = Some e"
    and "IS_ENTRY (entries d ! e) h k"
    and "\<forall>m<n. \<exists>e'. indices d ! probe_path (size_bits d) i m = Some e'
            \<and> \<not> IS_ENTRY (entries d ! e') h k"
  shows "dict_add_probe d h k i = Some (Found e)"
  using assms
proof (induction n arbitrary: i)
  case 0
  then show ?case
    by (subst dict_add_probe.simps) (simp add: GET_ENTRY_def probe_path_0)
next
  case (Suc n)
  from Suc.prems(3) obtain e' where
    e': "indices d ! i = Some e'" "\<not> IS_ENTRY (entries d ! e') h k"
    by (metis probe_path_0 zero_less_Suc)
  have "dict_add_probe d h k (probe_step (size_bits d) i) = Some (Found e)"
  proof (rule Suc.IH)
    show "indices d ! probe_path (size_bits d) (probe_step (size_bits d) i) n = Some e"
      using Suc.prems(1) by (simp add: probe_path_Suc)
    show "IS_ENTRY (entries d ! e) h k" by (rule Suc.prems(2))
    show "\<forall>m<n. \<exists>e'. indices d ! probe_path (size_bits d) (probe_step (size_bits d) i) m = Some e'
            \<and> \<not> IS_ENTRY (entries d ! e') h k"
      using Suc.prems(3) by (metis Suc_mono probe_path_Suc)
  qed
  then show ?case
    using e' by (subst dict_add_probe.simps) (simp add: GET_ENTRY_def NEXT_INDEX_step)
qed

lemma dict_add_probe_vacant:
  assumes "indices d ! probe_path (size_bits d) i n = None"
    and "\<forall>m<n. \<exists>e'. indices d ! probe_path (size_bits d) i m = Some e'
            \<and> \<not> IS_ENTRY (entries d ! e') h k"
  shows "dict_add_probe d h k i = Some (Vacant (probe_path (size_bits d) i n))"
  using assms
proof (induction n arbitrary: i)
  case 0
  then show ?case
    by (subst dict_add_probe.simps) (simp add: GET_ENTRY_def probe_path_0)
next
  case (Suc n)
  from Suc.prems(2) obtain e' where
    e': "indices d ! i = Some e'" "\<not> IS_ENTRY (entries d ! e') h k"
    by (metis probe_path_0 zero_less_Suc)
  have "dict_add_probe d h k (probe_step (size_bits d) i)
          = Some (Vacant (probe_path (size_bits d) (probe_step (size_bits d) i) n))"
  proof (rule Suc.IH)
    show "indices d ! probe_path (size_bits d) (probe_step (size_bits d) i) n = None"
      using Suc.prems(1) by (simp add: probe_path_Suc)
    show "\<forall>m<n. \<exists>e'. indices d ! probe_path (size_bits d) (probe_step (size_bits d) i) m = Some e'
            \<and> \<not> IS_ENTRY (entries d ! e') h k"
      using Suc.prems(2) by (metis Suc_mono probe_path_Suc)
  qed
  then show ?case
    using e' by (subst dict_add_probe.simps) (simp add: GET_ENTRY_def NEXT_INDEX_step probe_path_Suc)
qed

lemma expand_probe_run:
  assumes "indices d ! probe_path (size_bits d) i n = None"
    and "\<forall>m<n. indices d ! probe_path (size_bits d) i m \<noteq> None"
  shows "expand_probe d i = Some (probe_path (size_bits d) i n)"
  using assms
proof (induction n arbitrary: i)
  case 0
  then show ?case
    by (subst expand_probe.simps) (simp add: GET_ENTRY_def probe_path_0)
next
  case (Suc n)
  from Suc.prems(2) have occ: "indices d ! i \<noteq> None"
    by (metis probe_path_0 zero_less_Suc)
  have "expand_probe d (probe_step (size_bits d) i)
          = Some (probe_path (size_bits d) (probe_step (size_bits d) i) n)"
  proof (rule Suc.IH)
    show "indices d ! probe_path (size_bits d) (probe_step (size_bits d) i) n = None"
      using Suc.prems(1) by (simp add: probe_path_Suc)
    show "\<forall>m<n. indices d ! probe_path (size_bits d) (probe_step (size_bits d) i) m \<noteq> None"
      using Suc.prems(2) by (metis Suc_mono probe_path_Suc)
  qed
  then show ?case
    using occ by (subst expand_probe.simps) (simp add: GET_ENTRY_def NEXT_INDEX_step probe_path_Suc)
qed

lemma occupied_less_empty:
  assumes "occupied idx < length idx"
  shows "\<exists>j<length idx. idx ! j = None"
proof (rule ccontr)
  assume "\<not> (\<exists>j<length idx. idx ! j = None)"
  then have "\<forall>x\<in>set idx. x \<noteq> None"
    by (metis in_set_conv_nth)
  then have "filter (\<lambda>x. x \<noteq> None) idx = idx"
    by (simp add: filter_True)
  with assms show False by (simp add: occupied_def)
qed

lemma occupied_update:
  assumes "i < length idx" "idx ! i = None"
  shows "occupied (idx[i := Some c]) = Suc (occupied idx)"
proof -
  have a: "idx = take i idx @ None # drop (Suc i) idx"
    using assms by (metis id_take_nth_drop)
  have b: "idx[i := Some c] = take i idx @ Some c # drop (Suc i) idx"
    using assms(1) by (rule upd_conv_take_nth_drop)
  have "occupied idx = occupied (take i idx @ None # drop (Suc i) idx)"
    using a by simp
  then show ?thesis
    unfolding b by (simp add: occupied_def)
qed

lemma first_empty_on_path:
  assumes len: "length idx = 2 ^ bits" and occ: "occupied idx < 2 ^ bits" and i: "i < 2 ^ bits"
  shows "\<exists>n. idx ! probe_path bits i n = None \<and> (\<forall>m<n. idx ! probe_path bits i m \<noteq> None)
           \<and> probe_path bits i n < 2 ^ bits"
proof -
  from occupied_less_empty [of idx] len occ obtain j where j: "j < 2 ^ bits" "idx ! j = None"
    by auto
  from probe_path_full_period [OF i] j(1) obtain n0 where "probe_path bits i n0 = j"
    unfolding bij_betw_def by (metis imageE lessThan_iff)
  with j(2) have ex: "\<exists>n. idx ! probe_path bits i n = None" by auto
  define n where "n = (LEAST n. idx ! probe_path bits i n = None)"
  have "idx ! probe_path bits i n = None"
    unfolding n_def using ex by (rule LeastI_ex)
  moreover have "\<forall>m<n. idx ! probe_path bits i m \<noteq> None"
    unfolding n_def by (meson not_less_Least)
  moreover have "probe_path bits i n < 2 ^ bits"
    using i by (rule probe_path_less)
  ultimately show ?thesis by blast
qed

lemma placed_update:
  assumes "placed bits idx h e" "idx ! i = None"
  shows "placed bits (idx[i := Some c]) h e"
proof -
  from assms(1) obtain n where
    n: "idx ! probe_path bits (home bits h) n = Some e"
      "\<forall>m<n. \<exists>e'. idx ! probe_path bits (home bits h) m = Some e' \<and> e' \<noteq> e"
    unfolding placed_def by blast
  have "probe_path bits (home bits h) n \<noteq> i"
    using n(1) assms(2) by auto
  then have a: "idx[i := Some c] ! probe_path bits (home bits h) n = Some e"
    using n(1) by simp
  have b: "\<forall>m<n. \<exists>e'. idx[i := Some c] ! probe_path bits (home bits h) m = Some e' \<and> e' \<noteq> e"
  proof (intro allI impI)
    fix m assume "m < n"
    with n(2) obtain e' where e': "idx ! probe_path bits (home bits h) m = Some e'" "e' \<noteq> e"
      by blast
    then have "probe_path bits (home bits h) m \<noteq> i"
      using assms(2) by auto
    with e' show "\<exists>e'. idx[i := Some c] ! probe_path bits (home bits h) m = Some e' \<and> e' \<noteq> e"
      by simp
  qed
  from a b show ?thesis unfolding placed_def by blast
qed

lemma placed_new:
  assumes "idx ! probe_path bits (home bits h) n = None"
    and "\<forall>m<n. \<exists>e'. idx ! probe_path bits (home bits h) m = Some e' \<and> e' \<noteq> c"
    and "probe_path bits (home bits h) n < length idx"
  shows "placed bits (idx[probe_path bits (home bits h) n := Some c]) h c"
proof -
  let ?i = "probe_path bits (home bits h) n"
  have a: "idx[?i := Some c] ! ?i = Some c"
    using assms(3) by simp
  have b: "\<forall>m<n. \<exists>e'. idx[?i := Some c] ! probe_path bits (home bits h) m = Some e' \<and> e' \<noteq> c"
  proof (intro allI impI)
    fix m assume "m < n"
    with assms(2) obtain e' where e': "idx ! probe_path bits (home bits h) m = Some e'" "e' \<noteq> c"
      by blast
    then have "probe_path bits (home bits h) m \<noteq> ?i"
      using assms(1) by auto
    with e' show "\<exists>e'. idx[?i := Some c] ! probe_path bits (home bits h) m = Some e' \<and> e' \<noteq> c"
      by simp
  qed
  from a b show ?thesis unfolding placed_def by blast
qed

section \<open>The dictionary invariant\<close>

lemma dict_inv_new_dict: "dict_inv (new_dict :: ('w::len) word dict_t)"
proof -
  have "occupied (replicate 32 None) = 0"
    by (simp add: occupied_def)
  then show ?thesis
    by (simp add: dict_inv_def dict_core_def new_dict_def DICT_INIT_BITS_def count_def
        DICT_SIZE_def push_bit_of_1)
qed

lemma core_length: "dict_core d \<Longrightarrow> length (indices d) = 2 ^ size_bits d"
  unfolding dict_core_def by blast

lemma core_range: "dict_core d \<Longrightarrow> i < 2 ^ size_bits d \<Longrightarrow> indices d ! i = Some e \<Longrightarrow> e < count d"
  unfolding dict_core_def by blast

lemma core_occupied: "dict_core d \<Longrightarrow> occupied (indices d) \<le> count d"
  unfolding dict_core_def by blast

lemma core_distinct: "dict_core d \<Longrightarrow> distinct (map key (entries d))"
  unfolding dict_core_def by blast

lemma core_hash: "dict_core d \<Longrightarrow> e < count d \<Longrightarrow> hash (entries d ! e) = hash_key (key (entries d ! e))"
  unfolding dict_core_def by blast

lemma core_placed: "dict_core d \<Longrightarrow> e < count d \<Longrightarrow> placed (size_bits d) (indices d) (hash (entries d ! e)) e"
  unfolding dict_core_def by blast

lemma core_slot_less:
  assumes "dict_core d" "indices d ! probe_path (size_bits d) (home (size_bits d) h) n = Some e"
  shows "e < count d"
proof -
  have "probe_path (size_bits d) (home (size_bits d) h) n < 2 ^ size_bits d"
    by (rule probe_path_less) (rule home_less)
  with assms show ?thesis by (blast intro: core_range)
qed

lemma core_key_neq:
  assumes "dict_core d" "e < count d" "e' < count d" "e' \<noteq> e"
  shows "key (entries d ! e') \<noteq> key (entries d ! e)"
proof -
  from assms(1) have "distinct (map key (entries d))"
    by (rule core_distinct)
  then have "map key (entries d) ! e' \<noteq> map key (entries d) ! e"
    using assms(2,3,4) unfolding distinct_conv_nth count_def by simp
  then show ?thesis
    using assms(2,3) by (simp add: count_def)
qed

lemma lookup_present:
  fixes d :: "('w::len) word dict_t"
  assumes core: "dict_core d" and e: "e < count d"
  shows "dict_add_probe d (hash_key (key (entries d ! e))) (key (entries d ! e))
           (unat (hash_key (key (entries d ! e)) :: 'w::len word) AND DICT_MASK d) = Some (Found e)"
proof -
  let ?k = "key (entries d ! e)"
  let ?h = "hash_key ?k :: 'w word"
  from core e have h: "hash (entries d ! e) = ?h"
    by (rule core_hash)
  from core e have "placed (size_bits d) (indices d) (hash (entries d ! e)) e"
    by (rule core_placed)
  then obtain n where
    n: "indices d ! probe_path (size_bits d) (home (size_bits d) ?h) n = Some e"
      "\<forall>m<n. \<exists>e'. indices d ! probe_path (size_bits d) (home (size_bits d) ?h) m = Some e' \<and> e' \<noteq> e"
    unfolding placed_def h by blast
  have "dict_add_probe d ?h ?k (home (size_bits d) ?h) = Some (Found e)"
  proof (rule dict_add_probe_found [where n = n])
    show "indices d ! probe_path (size_bits d) (home (size_bits d) ?h) n = Some e" by (rule n(1))
    show "IS_ENTRY (entries d ! e) ?h ?k" using h by (simp add: IS_ENTRY_def)
    show "\<forall>m<n. \<exists>e'. indices d ! probe_path (size_bits d) (home (size_bits d) ?h) m = Some e'
            \<and> \<not> IS_ENTRY (entries d ! e') ?h ?k"
    proof (intro allI impI)
      fix m assume "m < n"
      with n(2) obtain e' where
        e': "indices d ! probe_path (size_bits d) (home (size_bits d) ?h) m = Some e'" "e' \<noteq> e"
        by blast
      from core e'(1) have "e' < count d" by (rule core_slot_less)
      with core e e'(2) have "key (entries d ! e') \<noteq> ?k" by (simp add: core_key_neq)
      with e'(1) show "\<exists>e'. indices d ! probe_path (size_bits d) (home (size_bits d) ?h) m = Some e'
            \<and> \<not> IS_ENTRY (entries d ! e') ?h ?k"
        by (simp add: IS_ENTRY_def)
    qed
  qed
  then show ?thesis by (simp add: home_mask)
qed

lemma lookup_absent:
  assumes core: "dict_core d" and room: "count d < 2 ^ size_bits d"
    and absent: "k \<notin> set (map key (entries d))"
  shows "\<exists>n. dict_add_probe d h k (unat h AND DICT_MASK d)
                = Some (Vacant (probe_path (size_bits d) (home (size_bits d) h) n))
            \<and> indices d ! probe_path (size_bits d) (home (size_bits d) h) n = None
            \<and> (\<forall>m<n. indices d ! probe_path (size_bits d) (home (size_bits d) h) m \<noteq> None)"
proof -
  let ?b = "size_bits d"
  from core have len: "length (indices d) = 2 ^ ?b" and "occupied (indices d) \<le> count d"
    by (rule core_length, rule core_occupied)
  with room have occ: "occupied (indices d) < 2 ^ ?b" by simp
  from first_empty_on_path [OF len occ home_less, of h] obtain n where
    n: "indices d ! probe_path ?b (home ?b h) n = None"
      "\<forall>m<n. indices d ! probe_path ?b (home ?b h) m \<noteq> None"
    by blast
  have "dict_add_probe d h k (home ?b h) = Some (Vacant (probe_path ?b (home ?b h) n))"
  proof (rule dict_add_probe_vacant)
    show "indices d ! probe_path ?b (home ?b h) n = None" by (rule n(1))
    show "\<forall>m<n. \<exists>e'. indices d ! probe_path ?b (home ?b h) m = Some e'
            \<and> \<not> IS_ENTRY (entries d ! e') h k"
    proof (intro allI impI)
      fix m assume "m < n"
      with n(2) obtain e' where e': "indices d ! probe_path ?b (home ?b h) m = Some e'"
        by auto
      from core e' have "e' < count d" by (rule core_slot_less)
      then have "key (entries d ! e') \<in> set (map key (entries d))"
        by (simp add: count_def)
      with absent have "key (entries d ! e') \<noteq> k" by auto
      with e' show "\<exists>e'. indices d ! probe_path ?b (home ?b h) m = Some e'
            \<and> \<not> IS_ENTRY (entries d ! e') h k"
        by (simp add: IS_ENTRY_def)
    qed
  qed
  with n show ?thesis by (auto simp: home_mask)
qed

lemma insert_core:
  fixes d :: "('w::len) word dict_t"
  assumes core: "dict_core d" and absent: "k \<notin> set (map key (entries d))"
    and empty: "indices d ! probe_path (size_bits d) (home (size_bits d) (hash_key k :: 'w word)) n = None"
    and before: "\<forall>m<n. indices d ! probe_path (size_bits d) (home (size_bits d) (hash_key k :: 'w word)) m \<noteq> None"
  shows "dict_core (d\<lparr>indices := (indices d)[probe_path (size_bits d) (home (size_bits d) (hash_key k :: 'w word)) n := Some (count d)],
                      entries := entries d @ [\<lparr>hash = hash_key k, key = k, val = None\<rparr>]\<rparr>)"
proof -
  let ?b = "size_bits d"
  let ?h = "hash_key k :: 'w word"
  let ?i = "probe_path ?b (home ?b ?h) n"
  let ?new = "\<lparr>hash = ?h, key = k, val = None\<rparr>"
  let ?idx = "(indices d)[?i := Some (count d)]"
  let ?d1 = "d\<lparr>indices := ?idx, entries := entries d @ [?new]\<rparr>"
  have i: "?i < 2 ^ ?b" by (rule probe_path_less) (rule home_less)
  have len: "length (indices d) = 2 ^ ?b" using core by (rule core_length)
  have cnt: "count ?d1 = Suc (count d)" by (simp add: count_def)
  have old: "\<And>e. e < count d \<Longrightarrow> entries ?d1 ! e = entries d ! e"
    by (simp add: count_def nth_append)
  have new: "entries ?d1 ! count d = ?new"
    by (simp add: count_def)
  have c1: "length (indices ?d1) = 2 ^ size_bits ?d1"
    using len by simp
  have c2: "\<forall>j e. j < 2 ^ size_bits ?d1 \<and> indices ?d1 ! j = Some e \<longrightarrow> e < count ?d1"
  proof (intro allI impI)
    fix j e assume a: "j < 2 ^ size_bits ?d1 \<and> indices ?d1 ! j = Some e"
    show "e < count ?d1"
    proof (cases "j = ?i")
      case True
      with a i len have "e = count d" by simp
      then show ?thesis using cnt by simp
    next
      case False
      with a have "indices d ! j = Some e" "j < 2 ^ ?b" by simp_all
      with core have "e < count d" by (blast intro: core_range)
      then show ?thesis using cnt by simp
    qed
  qed
  have c3: "occupied (indices ?d1) \<le> count ?d1"
    using occupied_update [of ?i "indices d" "count d"] i len empty core_occupied [OF core] cnt
    by simp
  have c4: "distinct (map key (entries ?d1))"
    using core_distinct [OF core] absent by simp
  have c5: "\<forall>e<count ?d1. hash (entries ?d1 ! e) = hash_key (key (entries ?d1 ! e))"
  proof (intro allI impI)
    fix e assume "e < count ?d1"
    then consider "e < count d" | "e = count d" using cnt by linarith
    then show "hash (entries ?d1 ! e) = hash_key (key (entries ?d1 ! e))"
    proof cases
      case 1
      then show ?thesis using core_hash [OF core 1] old [OF 1] by simp
    next
      case 2
      then show ?thesis using new by simp
    qed
  qed
  have c6: "\<forall>e<count ?d1. placed (size_bits ?d1) (indices ?d1) (hash (entries ?d1 ! e)) e"
  proof (intro allI impI)
    fix e assume "e < count ?d1"
    then consider "e < count d" | "e = count d" using cnt by linarith
    then show "placed (size_bits ?d1) (indices ?d1) (hash (entries ?d1 ! e)) e"
    proof cases
      case 1
      have "placed ?b ?idx (hash (entries d ! e)) e"
        using core_placed [OF core 1] empty by (rule placed_update)
      then show ?thesis using old [OF 1] by simp
    next
      case 2
      have "\<forall>m<n. \<exists>e'. indices d ! probe_path ?b (home ?b ?h) m = Some e' \<and> e' \<noteq> count d"
      proof (intro allI impI)
        fix m assume "m < n"
        with before obtain e' where e': "indices d ! probe_path ?b (home ?b ?h) m = Some e'"
          by auto
        from core e' have "e' < count d" by (rule core_slot_less)
        with e' show "\<exists>e'. indices d ! probe_path ?b (home ?b ?h) m = Some e' \<and> e' \<noteq> count d"
          by auto
      qed
      with empty have "placed ?b ?idx ?h (count d)"
        using i len by (intro placed_new) simp_all
      then show ?thesis using 2 new by simp
    qed
  qed
  from c1 c2 c3 c4 c5 c6 show ?thesis
    unfolding dict_core_def by blast
qed

lemma update_val_core:
  fixes d :: "('w::len) word dict_t"
  assumes core: "dict_core d" and e: "e < count d"
  shows "dict_core (d\<lparr>entries := (entries d)[e := (entries d ! e)\<lparr>val := v\<rparr>]\<rparr>)"
proof -
  let ?d1 = "d\<lparr>entries := (entries d)[e := (entries d ! e)\<lparr>val := v\<rparr>]\<rparr>"
  have hashes: "hash (entries ?d1 ! j) = hash (entries d ! j)" if "j < count d" for j
    using that by (cases "j = e") (simp_all add: count_def)
  have ks: "key (entries ?d1 ! j) = key (entries d ! j)" if "j < count d" for j
    using that by (cases "j = e") (simp_all add: count_def)
  have keys: "map key (entries ?d1) = map key (entries d)"
    using ks by (intro nth_equalityI) (simp_all add: count_def)
  have cnt: "count ?d1 = count d" by (simp add: count_def)
  have "length (indices ?d1) = 2 ^ size_bits ?d1"
    using core_length [OF core] by simp
  moreover have "\<forall>i e. i < 2 ^ size_bits ?d1 \<and> indices ?d1 ! i = Some e \<longrightarrow> e < count ?d1"
    using core_range [OF core] cnt by auto
  moreover have "occupied (indices ?d1) \<le> count ?d1"
    using core_occupied [OF core] cnt by simp
  moreover have "distinct (map key (entries ?d1))"
    using core_distinct [OF core] keys by simp
  moreover have "\<forall>j<count ?d1. hash (entries ?d1 ! j) = hash_key (key (entries ?d1 ! j))"
    using core_hash [OF core] hashes ks cnt by simp
  moreover have "\<forall>j<count ?d1. placed (size_bits ?d1) (indices ?d1) (hash (entries ?d1 ! j)) j"
    using core_placed [OF core] hashes cnt by simp
  ultimately show ?thesis
    unfolding dict_core_def by blast
qed

lemma expand_loop_correct:
  fixes d :: "('w::len) word dict_t"
  assumes "length (indices d) = 2 ^ size_bits d" and "count d < 2 ^ size_bits d"
    and "\<forall>i e'. i < 2 ^ size_bits d \<and> indices d ! i = Some e' \<longrightarrow> e' < e"
    and "occupied (indices d) \<le> e" and "e \<le> count d"
    and "\<forall>e'<e. placed (size_bits d) (indices d) (hash (entries d ! e')) e'"
  shows "\<exists>d'. expand_loop d e = Some d' \<and> entries d' = entries d \<and> size_bits d' = size_bits d
            \<and> length (indices d') = 2 ^ size_bits d
            \<and> (\<forall>i e'. i < 2 ^ size_bits d \<and> indices d' ! i = Some e' \<longrightarrow> e' < count d)
            \<and> occupied (indices d') \<le> count d
            \<and> (\<forall>e'<count d. placed (size_bits d) (indices d') (hash (entries d ! e')) e')"
  using assms
proof (induction "count d - e" arbitrary: d e)
  case 0
  then have "e = count d" by simp
  with "0.prems" show ?case
    by (subst expand_loop.simps) simp
next
  case (Suc x)
  let ?b = "size_bits d"
  let ?h = "hash (entries d ! e)"
  from Suc.hyps(2) have e: "e < count d" by simp
  have occ: "occupied (indices d) < 2 ^ ?b"
    using Suc.prems(2,4) e by simp
  from first_empty_on_path [OF Suc.prems(1) occ home_less, of ?h] obtain n where
    n: "indices d ! probe_path ?b (home ?b ?h) n = None"
      "\<forall>m<n. indices d ! probe_path ?b (home ?b ?h) m \<noteq> None"
      "probe_path ?b (home ?b ?h) n < 2 ^ ?b"
    by blast
  let ?i = "probe_path ?b (home ?b ?h) n"
  let ?d1 = "d\<lparr>indices := (indices d)[?i := Some e]\<rparr>"
  have probe: "expand_probe d (unat ?h AND DICT_MASK d) = Some ?i"
    using expand_probe_run [OF n(1,2)] by (simp add: home_mask)
  have step: "expand_loop d e = expand_loop ?d1 (e + 1)"
    using e probe by (subst expand_loop.simps) simp
  have cnt: "count ?d1 = count d" by (simp add: count_def)
  have p1: "length (indices ?d1) = 2 ^ size_bits ?d1"
    using Suc.prems(1) by simp
  have p2: "count ?d1 < 2 ^ size_bits ?d1"
    using Suc.prems(2) cnt by simp
  have p3: "\<forall>i e'. i < 2 ^ size_bits ?d1 \<and> indices ?d1 ! i = Some e' \<longrightarrow> e' < e + 1"
  proof (intro allI impI)
    fix i e' assume a: "i < 2 ^ size_bits ?d1 \<and> indices ?d1 ! i = Some e'"
    show "e' < e + 1"
    proof (cases "i = ?i")
      case True
      with a n(3) Suc.prems(1) show ?thesis by simp
    next
      case False
      with a have "i < 2 ^ ?b \<and> indices d ! i = Some e'" by simp
      with Suc.prems(3) have "e' < e" by blast
      then show ?thesis by simp
    qed
  qed
  have p4: "occupied (indices ?d1) \<le> e + 1"
    using occupied_update [of ?i "indices d" e] n(1,3) Suc.prems(1,4) by simp
  have p5: "e + 1 \<le> count ?d1"
    using e cnt by simp
  have p6: "\<forall>e'<e + 1. placed (size_bits ?d1) (indices ?d1) (hash (entries ?d1 ! e')) e'"
  proof (intro allI impI)
    fix e' assume "e' < e + 1"
    then consider "e' < e" | "e' = e" by linarith
    then show "placed (size_bits ?d1) (indices ?d1) (hash (entries ?d1 ! e')) e'"
    proof cases
      case 1
      with Suc.prems(6) have "placed ?b (indices d) (hash (entries d ! e')) e'" by blast
      then have "placed ?b ((indices d)[?i := Some e]) (hash (entries d ! e')) e'"
        using n(1) by (rule placed_update)
      then show ?thesis by simp
    next
      case 2
      have "\<forall>m<n. \<exists>e'. indices d ! probe_path ?b (home ?b ?h) m = Some e' \<and> e' \<noteq> e"
      proof (intro allI impI)
        fix m assume "m < n"
        with n(2) obtain e'' where e'': "indices d ! probe_path ?b (home ?b ?h) m = Some e''"
          by auto
        have "probe_path ?b (home ?b ?h) m < 2 ^ ?b"
          by (rule probe_path_less) (rule home_less)
        with e'' Suc.prems(3) have "e'' < e" by blast
        with e'' show "\<exists>e'. indices d ! probe_path ?b (home ?b ?h) m = Some e' \<and> e' \<noteq> e"
          by auto
      qed
      with n(1) have "placed ?b ((indices d)[?i := Some e]) ?h e"
        using n(3) Suc.prems(1) by (intro placed_new) simp_all
      then show ?thesis using 2 by simp
    qed
  qed
  have x: "x = count ?d1 - (e + 1)"
    using Suc.hyps(2) cnt by simp
  from Suc.hyps(1) [OF x p1 p2 p3 p4 p5 p6] obtain d' where
    d': "expand_loop ?d1 (e + 1) = Some d'" "entries d' = entries ?d1" "size_bits d' = size_bits ?d1"
      "length (indices d') = 2 ^ size_bits ?d1"
      "\<forall>i e'. i < 2 ^ size_bits ?d1 \<and> indices d' ! i = Some e' \<longrightarrow> e' < count ?d1"
      "occupied (indices d') \<le> count ?d1"
      "\<forall>e'<count ?d1. placed (size_bits ?d1) (indices d') (hash (entries ?d1 ! e')) e'"
    by blast
  have "expand_loop d e = Some d'" using step d'(1) by simp
  moreover have "entries d' = entries d" using d'(2) by simp
  moreover have "size_bits d' = size_bits d" using d'(3) by simp
  moreover have "length (indices d') = 2 ^ size_bits d" using d'(4) by simp
  moreover have "\<forall>i e'. i < 2 ^ size_bits d \<and> indices d' ! i = Some e' \<longrightarrow> e' < count d"
    using d'(5) cnt by simp
  moreover have "occupied (indices d') \<le> count d" using d'(6) cnt by simp
  moreover have "\<forall>e'<count d. placed (size_bits d) (indices d') (hash (entries d ! e')) e'"
    using d'(7) cnt by simp
  ultimately show ?case by blast
qed

lemma occupied_replicate: "occupied (replicate n None) = 0"
  by (simp add: occupied_def)

lemma expand_dict_correct:
  fixes d :: "('w::len) word dict_t"
  assumes dist: "distinct (map key (entries d))"
    and hashes: "\<forall>e<count d. hash (entries d ! e) = hash_key (key (entries d ! e))"
    and room: "count d < 2 ^ (size_bits d + 1)"
  shows "\<exists>d'. expand_dict d = Some d' \<and> entries d' = entries d
            \<and> size_bits d' = size_bits d + 1 \<and> dict_core d'"
proof -
  let ?d1 = "d\<lparr>size_bits := size_bits d + 1\<rparr>"
  let ?d2 = "?d1\<lparr>indices := replicate (DICT_SIZE ?d1) IDX_EMPTY\<rparr>"
  have cnt: "count ?d2 = count d" by (simp add: count_def)
  have p1: "length (indices ?d2) = 2 ^ size_bits ?d2"
    by (simp add: DICT_SIZE_pow)
  have p2: "count ?d2 < 2 ^ size_bits ?d2"
    using room cnt by simp
  have p3: "\<forall>i e'. i < 2 ^ size_bits ?d2 \<and> indices ?d2 ! i = Some e' \<longrightarrow> e' < 0"
    by (simp add: DICT_SIZE_pow)
  have p4: "occupied (indices ?d2) \<le> 0"
    by (simp add: occupied_replicate)
  have p5: "0 \<le> count ?d2" by simp
  have p6: "\<forall>e'<0. placed (size_bits ?d2) (indices ?d2) (hash (entries ?d2 ! e')) e'"
    by simp
  from expand_loop_correct [OF p1 p2 p3 p4 p5 p6] obtain d' where
    d': "expand_loop ?d2 0 = Some d'" "entries d' = entries ?d2" "size_bits d' = size_bits ?d2"
      "length (indices d') = 2 ^ size_bits ?d2"
      "\<forall>i e'. i < 2 ^ size_bits ?d2 \<and> indices d' ! i = Some e' \<longrightarrow> e' < count ?d2"
      "occupied (indices d') \<le> count ?d2"
      "\<forall>e'<count ?d2. placed (size_bits ?d2) (indices d') (hash (entries ?d2 ! e')) e'"
    by blast
  have e1: "expand_dict d = Some d'"
    using d'(1) by (simp add: expand_dict_def Let_def)
  have e2: "entries d' = entries d" using d'(2) by simp
  have e3: "size_bits d' = size_bits d + 1" using d'(3) by simp
  have cnt': "count d' = count d" using e2 by (simp add: count_def)
  have "dict_core d'"
    unfolding dict_core_def
    using d'(4,5,6,7) dist hashes e2 e3 cnt' cnt by simp
  with e1 e2 e3 show ?thesis by blast
qed

section \<open>dict_add case by case\<close>

lemma inv_core: "dict_inv d \<Longrightarrow> dict_core d"
  by (simp add: dict_inv_def)

lemma inv_load: "dict_inv d \<Longrightarrow> count d \<le> 2 ^ size_bits d * 2 div 3"
  by (simp add: dict_inv_def DICT_SIZE_pow)

lemma inv_room: 
  assumes "dict_inv d" shows "count d < 2 ^ size_bits d"
proof -
  have "(0::nat) < 2 ^ size_bits d" by simp
  then have "(2::nat) ^ size_bits d * 2 div 3 < 2 ^ size_bits d" by linarith
  with inv_load [OF assms] show ?thesis by linarith
qed

lemma load_after_growth:
  "0 < (S::nat) \<Longrightarrow> c \<le> S * 2 div 3 \<Longrightarrow> Suc c \<le> (2 * S) * 2 div 3"
  by presburger

lemma dict_add_insert:
  fixes d :: "('w::len) word dict_t"
  assumes inv: "dict_inv d" and absent: "k \<notin> set (map key (entries d))"
  shows "\<exists>d' i. dict_add d k None = Some (Inr (True, d'))
           \<and> entries d' = entries d @ [\<lparr>hash = hash_key k, key = k, val = None\<rparr>]
           \<and> (if DICT_SIZE d * 2 div 3 < Suc (count d)
               then size_bits d' = size_bits d + 1
                 \<and> expand_dict (d\<lparr>indices := (indices d)[i := Some (count d)],
                        entries := entries d @ [\<lparr>hash = hash_key k, key = k, val = None\<rparr>]\<rparr>) = Some d'
               else size_bits d' = size_bits d)
           \<and> dict_inv d'"
proof -
  let ?b = "size_bits d"
  let ?h = "hash_key k :: 'w word"
  let ?new = "\<lparr>hash = ?h, key = k, val = None\<rparr>"
  have core: "dict_core d" using inv by (rule inv_core)
  have room: "count d < 2 ^ ?b" using inv by (rule inv_room)
  from lookup_absent [OF core room absent, of ?h] obtain n where
    n: "dict_add_probe d ?h k (unat ?h AND DICT_MASK d) = Some (Vacant (probe_path ?b (home ?b ?h) n))"
      "indices d ! probe_path ?b (home ?b ?h) n = None"
      "\<forall>m<n. indices d ! probe_path ?b (home ?b ?h) m \<noteq> None"
    by blast
  let ?i = "probe_path ?b (home ?b ?h) n"
  let ?d1 = "d\<lparr>indices := (indices d)[?i := Some (count d)], entries := entries d @ [?new]\<rparr>"
  have core1: "dict_core ?d1"
    using core absent n(2,3) by (rule insert_core)
  have cnt1: "count ?d1 = Suc (count d)" by (simp add: count_def)
  have size1: "DICT_SIZE ?d1 = DICT_SIZE d" by (simp add: DICT_SIZE_def)
  show ?thesis
  proof (cases "DICT_SIZE d * 2 div 3 < Suc (count d)")
    case True
    have "count ?d1 < 2 ^ (size_bits ?d1 + 1)"
      using room cnt1 by simp
    from expand_dict_correct [OF core_distinct [OF core1] _ this] core_hash [OF core1]
    obtain d' where d': "expand_dict ?d1 = Some d'" "entries d' = entries ?d1"
      "size_bits d' = size_bits ?d1 + 1" "dict_core d'"
      by blast
    have r: "dict_add d k None = Some (Inr (True, d'))"
      using n(1) True d'(1) cnt1 size1 by (simp add: dict_add_def Let_def)
    have "count d' = Suc (count d)" using d'(2) by (simp add: count_def)
    moreover have "Suc (count d) \<le> 2 ^ (?b + 1) * 2 div 3"
      using load_after_growth [OF _ inv_load [OF inv]] by simp
    ultimately have "dict_inv d'"
      using d'(3,4) by (simp add: dict_inv_def DICT_SIZE_pow)
    with r d' True show ?thesis by auto
  next
    case False
    have r: "dict_add d k None = Some (Inr (True, ?d1))"
      using n(1) False cnt1 size1 by (simp add: dict_add_def Let_def)
    have "dict_inv ?d1"
      using core1 False cnt1 size1 by (simp add: dict_inv_def)
    with r False show ?thesis by auto
  qed
qed

lemma dict_add_missing:
  fixes d :: "('w::len) word dict_t"
  assumes inv: "dict_inv d" and absent: "k \<notin> set (map key (entries d))"
  shows "dict_add d k (Some v) = Some (Inr (False, d))"
proof -
  from lookup_absent [OF inv_core [OF inv] inv_room [OF inv] absent, of "hash_key k :: 'w word"]
  obtain i where
    "dict_add_probe d (hash_key k) k (unat (hash_key k :: 'w word) AND DICT_MASK d) = Some (Vacant i)"
    by blast
  then show ?thesis by (simp add: dict_add_def Let_def)
qed

lemma dict_add_existing:
  fixes d :: "('w::len) word dict_t"
  assumes inv: "dict_inv d" and e: "e < count d"
  shows "dict_add d (key (entries d ! e)) v =
           (case v of
              None \<Rightarrow> Some (Inl MemoryAllocationFailed)
            | Some v' \<Rightarrow>
                Some (Inr (True, d\<lparr>entries := (entries d)[e := (entries d ! e)\<lparr>val := Some v'\<rparr>]\<rparr>)))"
  using lookup_present [OF inv_core [OF inv] e]
  by (simp add: dict_add_def Let_def check_ptr_def strdup_def split: option.split)

lemma dict_inv_update_val:
  fixes d :: "('w::len) word dict_t"
  assumes inv: "dict_inv d" and e: "e < count d"
  shows "dict_inv (d\<lparr>entries := (entries d)[e := (entries d ! e)\<lparr>val := v\<rparr>]\<rparr>)"
  using update_val_core [OF inv_core [OF inv] e, of v] inv
  by (simp add: dict_inv_def count_def DICT_SIZE_def)

lemma key_present:
  assumes "k \<in> set (map key (entries d))"
  shows "\<exists>e<count d. key (entries d ! e) = k"
proof -
  from assms obtain e where "e < length (map key (entries d))" "map key (entries d) ! e = k"
    by (meson in_set_conv_nth)
  then show ?thesis by (auto simp: count_def)
qed

lemma dict_add_inv:
  fixes d :: "('w::len) word dict_t"
  assumes inv: "dict_inv d" and r: "dict_add d k v = Some (Inr (ok, d'))"
  shows "dict_inv d'"
proof (cases "k \<in> set (map key (entries d))")
  case True
  then obtain e where e: "e < count d" "key (entries d ! e) = k"
    using key_present by blast
  show ?thesis
  proof (cases v)
    case None
    with dict_add_existing [OF inv e(1), of v] e(2) r show ?thesis by simp
  next
    case (Some v')
    with dict_add_existing [OF inv e(1), of v] e(2) r
    have "d' = d\<lparr>entries := (entries d)[e := (entries d ! e)\<lparr>val := Some v'\<rparr>]\<rparr>" by simp
    then show ?thesis using dict_inv_update_val [OF inv e(1)] by simp
  qed
next
  case False
  show ?thesis
  proof (cases v)
    case None
    with dict_add_insert [OF inv False] r show ?thesis by auto
  next
    case (Some v')
    with dict_add_missing [OF inv False, of v'] r inv show ?thesis by simp
  qed
qed

lemma reachable_inv: "reachable d \<Longrightarrow> dict_inv d"
proof (induction rule: reachable.induct)
  case new
  show ?case by (rule dict_inv_new_dict)
next
  case (add d k v ok d')
  then show ?case using dict_add_inv by blast
qed

lemma dict_add_all_reachable:
  "reachable d \<Longrightarrow> dict_add_all d ss = Some (Inr d') \<Longrightarrow> reachable d'"
proof (induction ss arbitrary: d)
  case Nil
  then show ?case by simp
next
  case (Cons s ss)
  from Cons.prems(2) obtain ok d1 where
    d1: "dict_add d s None = Some (Inr (ok, d1))" "dict_add_all d1 ss = Some (Inr d')"
    by (auto split: option.splits sum.splits)
  from Cons.prems(1) d1(1) have "reachable d1" by (rule reachable.add)
  then show ?case using d1(2) by (rule Cons.IH)
qed

text \<open>Adding names that are new and distinct appends one entry for each, in order.\<close>

lemma dict_add_all_fresh:
  fixes d :: "('w::len) word dict_t"
  assumes "dict_inv d" "distinct ss" "set ss \<inter> set (map key (entries d)) = {}"
  shows "\<exists>d'. dict_add_all d ss = Some (Inr d')
           \<and> entries d' = entries d @ map (\<lambda>s. \<lparr>hash = hash_key s, key = s, val = None\<rparr>) ss
           \<and> dict_inv d'
           \<and> (count d + length ss \<le> DICT_SIZE d * 2 div 3 \<longrightarrow> size_bits d' = size_bits d)"
  using assms
proof (induction ss arbitrary: d)
  case Nil
  then show ?case by simp
next
  case (Cons s ss)
  from Cons.prems(3) have absent: "s \<notin> set (map key (entries d))" by auto
  from dict_add_insert [OF Cons.prems(1) absent] obtain d1 where
    d1: "dict_add d s None = Some (Inr (True, d1))"
      "entries d1 = entries d @ [\<lparr>hash = hash_key s, key = s, val = None\<rparr>]"
      "if DICT_SIZE d * 2 div 3 < Suc (count d) then size_bits d1 = size_bits d + 1
       else size_bits d1 = size_bits d"
      "dict_inv d1"
    by (auto split: if_splits)
  have "distinct ss" using Cons.prems(2) by simp
  moreover have "set ss \<inter> set (map key (entries d1)) = {}"
    using Cons.prems(2,3) d1(2) by auto
  ultimately obtain d' where
    d': "dict_add_all d1 ss = Some (Inr d')"
      "entries d' = entries d1 @ map (\<lambda>s. \<lparr>hash = hash_key s, key = s, val = None\<rparr>) ss"
      "dict_inv d'"
      "count d1 + length ss \<le> DICT_SIZE d1 * 2 div 3 \<longrightarrow> size_bits d' = size_bits d1"
    using Cons.IH [OF d1(4)] by blast
  have r: "dict_add_all d (s # ss) = Some (Inr d')"
    using d1(1) d'(1) by simp
  have e: "entries d' = entries d @ map (\<lambda>s. \<lparr>hash = hash_key s, key = s, val = None\<rparr>) (s # ss)"
    using d1(2) d'(2) by simp
  have "size_bits d' = size_bits d" if le: "count d + length (s # ss) \<le> DICT_SIZE d * 2 div 3"
  proof -
    from le have "\<not> DICT_SIZE d * 2 div 3 < Suc (count d)" by simp
    with d1(3) have same: "size_bits d1 = size_bits d" by simp
    then have "DICT_SIZE d1 = DICT_SIZE d" by (simp add: DICT_SIZE_def)
    moreover have "count d1 = Suc (count d)" using d1(2) by (simp add: count_def)
    ultimately have "count d1 + length ss \<le> DICT_SIZE d1 * 2 div 3" using le by simp
    with d'(4) same show ?thesis by simp
  qed
  with r e d'(3) show ?case by blast
qed

subsection \<open>A dictionary with one entry, evaluated\<close>

lemma hash_key_foo: "(hash_key (bytes_of ''foo'') :: 64 word) = 150789"
  by code_simp

lemma dict_add_foo:
  "dict_add (new_dict :: 64 word dict_t) (bytes_of ''foo'') None
     = Some (Inr (True, \<lparr>entries = [\<lparr>hash = 150789, key = bytes_of ''foo'', val = None\<rparr>],
                          indices = (replicate 32 IDX_EMPTY)[5 := Some 0], size_bits = 5\<rparr>))"
proof -
  have h: "unat (150789 :: 64 word) AND DICT_MASK (new_dict :: 64 word dict_t) = 5"
    by (subst home_mask) (simp add: home_def new_dict_def DICT_INIT_BITS_def)
  have p: "dict_add_probe (new_dict :: 64 word dict_t) 150789 (bytes_of ''foo'') 5 = Some (Vacant 5)"
    by (subst dict_add_probe.simps) (simp add: GET_ENTRY_def new_dict_def DICT_INIT_BITS_def)
  show ?thesis
    unfolding dict_add_def Let_def hash_key_foo h p
    by (simp add: new_dict_def DICT_INIT_BITS_def count_def DICT_SIZE_def)
qed

lemma reachable_foo:
  "reachable \<lparr>entries = [\<lparr>hash = 150789 :: 64 word, key = bytes_of ''foo'', val = None\<rparr>],
               indices = (replicate 32 IDX_EMPTY)[5 := Some 0], size_bits = 5\<rparr>"
  using reachable.new dict_add_foo by (rule reachable.add)

section \<open>The claims about the dictionary\<close>

text \<open>
  C4 (the code departs from it). The first \<^verbatim>\<open>dict_add(dict, "foo", NULL)\<close> on a new
  dictionary inserts the entry; the second finds it, calls \<^verbatim>\<open>strdup(NULL)\<close> and then
  \<^verbatim>\<open>check_ptr\<close> on the NULL result, which raises "Memory allocation failed.": the
  second insertion is not a no-op.
\<close>

theorem dict_add_twice_raises:
  "dict_add (new_dict :: 64 word dict_t) (bytes_of ''foo'') None
     = Some (Inr (True, \<lparr>entries = [\<lparr>hash = 150789, key = bytes_of ''foo'', val = None\<rparr>],
                          indices = (replicate 32 IDX_EMPTY)[5 := Some 0], size_bits = 5\<rparr>))
   \<and> dict_add \<lparr>entries = [\<lparr>hash = 150789 :: 64 word, key = bytes_of ''foo'', val = None\<rparr>],
                 indices = (replicate 32 IDX_EMPTY)[5 := Some 0], size_bits = 5\<rparr>
        (bytes_of ''foo'') None
     = Some (Inl MemoryAllocationFailed)"
proof -
  let ?d = "\<lparr>entries = [\<lparr>hash = 150789 :: 64 word, key = bytes_of ''foo'', val = None\<rparr>],
             indices = (replicate 32 IDX_EMPTY)[5 := Some 0], size_bits = 5\<rparr>"
  have "dict_add ?d (key (entries ?d ! 0)) None = Some (Inl MemoryAllocationFailed)"
    using dict_add_existing [OF reachable_inv [OF reachable_foo], of 0 None]
    by (simp add: count_def)
  then show ?thesis using dict_add_foo by simp
qed

text \<open>
  C5. On every dictionary the program can build, renaming a name that is not a key
  makes \<^verbatim>\<open>dict_add\<close> return false with the dictionary unchanged, and
  \<^verbatim>\<open>change_symbol_name\<close> raise the error whose message names the symbol.
\<close>

theorem rename_missing_symbol:
  fixes d :: "('w::len) word dict_t"
  assumes "reachable d" and "old \<notin> set (map key (entries d))"
  shows "dict_add d old (Some new) = Some (Inr (False, d))
       \<and> change_symbol_name d old new = Some (Inl (CannotFindSymbol old))
       \<and> error_message (CannotFindSymbol old)
           = bytes_of ''Cannot find symbol '' @ [0x27] @ old @ [0x27] @ bytes_of ''.''"
proof -
  have "dict_add d old (Some new) = Some (Inr (False, d))"
    using reachable_inv [OF assms(1)] assms(2) by (rule dict_add_missing)
  then show ?thesis by (simp add: change_symbol_name_def)
qed

theorem rename_missing_symbol_witness:
  "reachable \<lparr>entries = [\<lparr>hash = 150789 :: 64 word, key = bytes_of ''foo'', val = None\<rparr>],
               indices = (replicate 32 IDX_EMPTY)[5 := Some 0], size_bits = 5\<rparr>
   \<and> bytes_of ''bar'' \<notin> set [bytes_of ''foo'']
   \<and> change_symbol_name
        \<lparr>entries = [\<lparr>hash = 150789 :: 64 word, key = bytes_of ''foo'', val = None\<rparr>],
          indices = (replicate 32 IDX_EMPTY)[5 := Some 0], size_bits = 5\<rparr>
        (bytes_of ''bar'') (bytes_of ''baz'')
      = Some (Inl (CannotFindSymbol (bytes_of ''bar'')))"
proof -
  let ?d = "\<lparr>entries = [\<lparr>hash = 150789 :: 64 word, key = bytes_of ''foo'', val = None\<rparr>],
             indices = (replicate 32 IDX_EMPTY)[5 := Some 0], size_bits = 5\<rparr>"
  have a: "bytes_of ''bar'' \<notin> set (map key (entries ?d))"
    by (simp add: bytes_of_def)
  from rename_missing_symbol [OF reachable_foo a, of "bytes_of ''baz''"] show ?thesis
    using reachable_foo a by simp
qed

text \<open>
  C6. On every dictionary the program can build, for a key \<open>k\<close> that is present,
  \<open>rename(k, v1)\<close> and then \<open>rename(k, v2)\<close> both succeed, and afterwards the entry of
  \<open>k\<close> holds \<open>v2\<close>, which is its effective name; nothing else has changed.
\<close>

theorem rename_twice_last_wins:
  fixes d :: "('w::len) word dict_t"
  assumes "reachable d" and "k \<in> set (map key (entries d))"
  shows "\<exists>d1 d2 e. change_symbol_name d k v1 = Some (Inr d1)
           \<and> change_symbol_name d1 k v2 = Some (Inr d2)
           \<and> e < count d \<and> key (entries d ! e) = k
           \<and> d2 = d\<lparr>entries := (entries d)[e := (entries d ! e)\<lparr>val := Some v2\<rparr>]\<rparr>
           \<and> val (entries d2 ! e) = Some v2
           \<and> effective_name (entries d2 ! e) = v2"
proof -
  have inv: "dict_inv d" using assms(1) by (rule reachable_inv)
  from key_present [OF assms(2)] obtain e where e: "e < count d" "key (entries d ! e) = k"
    by blast
  let ?d1 = "d\<lparr>entries := (entries d)[e := (entries d ! e)\<lparr>val := Some v1\<rparr>]\<rparr>"
  let ?d2 = "d\<lparr>entries := (entries d)[e := (entries d ! e)\<lparr>val := Some v2\<rparr>]\<rparr>"
  have r1: "dict_add d k (Some v1) = Some (Inr (True, ?d1))"
    using dict_add_existing [OF inv e(1), of "Some v1"] e(2) by simp
  have inv1: "dict_inv ?d1" using inv e(1) by (rule dict_inv_update_val)
  have e1: "e < count ?d1" "key (entries ?d1 ! e) = k"
    using e by (simp_all add: count_def)
  have "?d1\<lparr>entries := (entries ?d1)[e := (entries ?d1 ! e)\<lparr>val := Some v2\<rparr>]\<rparr> = ?d2"
    using e(1) by (simp add: count_def)
  then have r2: "dict_add ?d1 k (Some v2) = Some (Inr (True, ?d2))"
    using dict_add_existing [OF inv1 e1(1), of "Some v2"] e1(2) by simp
  have c1: "change_symbol_name d k v1 = Some (Inr ?d1)"
    using r1 by (simp add: change_symbol_name_def)
  have c2: "change_symbol_name ?d1 k v2 = Some (Inr ?d2)"
    using r2 by (simp add: change_symbol_name_def)
  have v: "val (entries ?d2 ! e) = Some v2"
    using e(1) by (simp add: count_def)
  then have "effective_name (entries ?d2 ! e) = v2"
    by (simp add: effective_name_def)
  with c1 c2 e v show ?thesis by blast
qed

theorem rename_twice_last_wins_witness:
  "reachable \<lparr>entries = [\<lparr>hash = 150789 :: 64 word, key = bytes_of ''foo'', val = None\<rparr>],
               indices = (replicate 32 IDX_EMPTY)[5 := Some 0], size_bits = 5\<rparr>
   \<and> bytes_of ''foo'' \<in> set [bytes_of ''foo'']
   \<and> (\<exists>d1. change_symbol_name
          \<lparr>entries = [\<lparr>hash = 150789 :: 64 word, key = bytes_of ''foo'', val = None\<rparr>],
            indices = (replicate 32 IDX_EMPTY)[5 := Some 0], size_bits = 5\<rparr>
          (bytes_of ''foo'') (bytes_of ''bar'') = Some (Inr d1)
        \<and> change_symbol_name d1 (bytes_of ''foo'') (bytes_of ''baz'')
          = Some (Inr \<lparr>entries = [\<lparr>hash = 150789 :: 64 word, key = bytes_of ''foo'',
                                     val = Some (bytes_of ''baz'')\<rparr>],
                         indices = (replicate 32 IDX_EMPTY)[5 := Some 0], size_bits = 5\<rparr>))"
proof -
  let ?d = "\<lparr>entries = [\<lparr>hash = 150789 :: 64 word, key = bytes_of ''foo'', val = None\<rparr>],
             indices = (replicate 32 IDX_EMPTY)[5 := Some 0], size_bits = 5\<rparr>"
  have a: "bytes_of ''foo'' \<in> set (map key (entries ?d))"
    by simp
  from rename_twice_last_wins [OF reachable_foo a, of "bytes_of ''bar''" "bytes_of ''baz''"]
  obtain d1 d2 e where
    h: "change_symbol_name ?d (bytes_of ''foo'') (bytes_of ''bar'') = Some (Inr d1)"
      "change_symbol_name d1 (bytes_of ''foo'') (bytes_of ''baz'') = Some (Inr d2)"
      "e < count ?d"
      "d2 = ?d\<lparr>entries := (entries ?d)[e := (entries ?d ! e)\<lparr>val := Some (bytes_of ''baz'')\<rparr>]\<rparr>"
    by blast
  from h(3) have "e = 0" by (simp add: count_def)
  with h(4) have "d2 = \<lparr>entries = [\<lparr>hash = 150789 :: 64 word, key = bytes_of ''foo'',
                                     val = Some (bytes_of ''baz'')\<rparr>],
                         indices = (replicate 32 IDX_EMPTY)[5 := Some 0], size_bits = 5\<rparr>"
    by simp
  with h(1,2) reachable_foo show ?thesis by auto
qed

lemma funpow_NEXT_INDEX: "(NEXT_INDEX d ^^ n) i = probe_path (size_bits d) i n"
proof -
  have "NEXT_INDEX d = probe_step (size_bits d)"
    by (rule ext) (rule NEXT_INDEX_step)
  then show ?thesis by (simp add: probe_path_def)
qed

text \<open>
  C9. For a table of any power-of-two size (the \<open>size_bits\<close> of \<open>t\<close> is arbitrary), the
  first \<open>DICT_SIZE t\<close> slots that \<^verbatim>\<open>NEXT_INDEX\<close> reaches from any slot \<open>i\<close> are all the
  slots of the table, each exactly once. On every dictionary \<open>d\<close> the program can
  build, the load is at most two thirds of the size, an empty slot exists, the
  probing loop of \<^verbatim>\<open>dict_add\<close> returns for every key, at an entry with that key or
  at an empty slot, and \<^verbatim>\<open>dict_add\<close> itself returns.
\<close>

theorem probe_full_period_and_terminates:
  fixes d t :: "('w::len) word dict_t"
  assumes "reachable d"
  shows "(i < DICT_SIZE t \<longrightarrow>
            bij_betw (\<lambda>n. (NEXT_INDEX t ^^ n) i) {..<DICT_SIZE t} {..<DICT_SIZE t})
       \<and> count d \<le> DICT_SIZE d * 2 div 3
       \<and> (\<exists>j<DICT_SIZE d. indices d ! j = IDX_EMPTY)
       \<and> (\<exists>r. dict_add_probe d (hash_key k) k (unat (hash_key k :: 'w word) AND DICT_MASK d) = Some r
              \<and> (case r of
                    Found e \<Rightarrow> e < count d \<and> key (entries d ! e) = k
                  | Vacant j \<Rightarrow> j < DICT_SIZE d \<and> indices d ! j = IDX_EMPTY))
       \<and> dict_add d k v \<noteq> None"
proof -
  have inv: "dict_inv d" using assms by (rule reachable_inv)
  have core: "dict_core d" using inv by (rule inv_core)
  have room: "count d < 2 ^ size_bits d" using inv by (rule inv_room)
  have p1: "i < DICT_SIZE t \<longrightarrow>
            bij_betw (\<lambda>n. (NEXT_INDEX t ^^ n) i) {..<DICT_SIZE t} {..<DICT_SIZE t}"
    using probe_path_full_period [of i "size_bits t"]
    by (simp add: funpow_NEXT_INDEX DICT_SIZE_pow)
  have p2: "count d \<le> DICT_SIZE d * 2 div 3"
    using inv by (simp add: dict_inv_def)
  have "occupied (indices d) < length (indices d)"
    using core_occupied [OF core] core_length [OF core] room by simp
  then have p3: "\<exists>j<DICT_SIZE d. indices d ! j = IDX_EMPTY"
    using occupied_less_empty [of "indices d"] core_length [OF core] by (simp add: DICT_SIZE_pow)
  let ?h = "hash_key k :: 'w word"
  have p4: "\<exists>r. dict_add_probe d ?h k (unat ?h AND DICT_MASK d) = Some r
              \<and> (case r of
                    Found e \<Rightarrow> e < count d \<and> key (entries d ! e) = k
                  | Vacant j \<Rightarrow> j < DICT_SIZE d \<and> indices d ! j = IDX_EMPTY)"
  proof (cases "k \<in> set (map key (entries d))")
    case True
    from key_present [OF True] obtain e where e: "e < count d" "key (entries d ! e) = k"
      by blast
    with lookup_present [OF core e(1)] show ?thesis by auto
  next
    case False
    from lookup_absent [OF core room False, of ?h] obtain n where
      n: "dict_add_probe d ?h k (unat ?h AND DICT_MASK d)
            = Some (Vacant (probe_path (size_bits d) (home (size_bits d) ?h) n))"
        "indices d ! probe_path (size_bits d) (home (size_bits d) ?h) n = None"
      by blast
    have "probe_path (size_bits d) (home (size_bits d) ?h) n < DICT_SIZE d"
      unfolding DICT_SIZE_pow by (rule probe_path_less) (rule home_less)
    with n show ?thesis by simp
  qed
  have p5: "dict_add d k v \<noteq> None"
  proof (cases "k \<in> set (map key (entries d))")
    case True
    from key_present [OF True] obtain e where e: "e < count d" "key (entries d ! e) = k"
      by blast
    with dict_add_existing [OF inv e(1), of v] show ?thesis
      by (simp split: option.splits)
  next
    case False
    show ?thesis
    proof (cases v)
      case None
      with dict_add_insert [OF inv False] show ?thesis by auto
    next
      case (Some v')
      with dict_add_missing [OF inv False, of v'] show ?thesis by simp
    qed
  qed
  from p1 p2 p3 p4 p5 show ?thesis by blast
qed

theorem probe_full_period_and_terminates_witness:
  "reachable \<lparr>entries = [\<lparr>hash = 150789 :: 64 word, key = bytes_of ''foo'', val = None\<rparr>],
               indices = (replicate 32 IDX_EMPTY)[5 := Some 0], size_bits = 5\<rparr>
   \<and> bij_betw (\<lambda>n. (NEXT_INDEX (new_dict :: 64 word dict_t) ^^ n) 5) {..<32} {..<32}
   \<and> dict_add \<lparr>entries = [\<lparr>hash = 150789 :: 64 word, key = bytes_of ''foo'', val = None\<rparr>],
                 indices = (replicate 32 IDX_EMPTY)[5 := Some 0], size_bits = 5\<rparr>
        (bytes_of ''bar'') None \<noteq> None"
proof -
  have s: "DICT_SIZE (new_dict :: 64 word dict_t) = 32"
    by (simp add: DICT_SIZE_def new_dict_def DICT_INIT_BITS_def)
  from probe_full_period_and_terminates [OF reachable_foo,
      of 5 "new_dict :: 64 word dict_t" "bytes_of ''bar''" None]
  show ?thesis using reachable_foo by (simp add: s)
qed

text \<open>
  C10. On every dictionary \<open>d\<close> the program can build, inserting a new key \<open>k\<close>
  returns true with the entry of \<open>k\<close> appended to the unchanged entries. When the
  new count exceeds two thirds of the table size, the table size has doubled and
  the new dictionary is what the re-insertion loop of \<^verbatim>\<open>expand_dict\<close> makes of the
  cleared slot table of the doubled size and the same entries, read through their
  stored hashes; otherwise the size is unchanged. In both cases every entry, old
  or new, is found by the probing loop at its own position in insertion order,
  with its key, hash and value as stored before.
\<close>

theorem growth_keeps_entries:
  fixes d :: "('w::len) word dict_t"
  assumes "reachable d" and "k \<notin> set (map key (entries d))"
  shows "\<exists>d'. dict_add d k None = Some (Inr (True, d'))
           \<and> entries d' = entries d @ [\<lparr>hash = hash_key k, key = k, val = None\<rparr>]
           \<and> (if DICT_SIZE d * 2 div 3 < count d + 1
               then DICT_SIZE d' = 2 * DICT_SIZE d
                 \<and> expand_loop \<lparr>entries = entries d', indices = replicate (2 * DICT_SIZE d) IDX_EMPTY,
                                 size_bits = size_bits d + 1\<rparr> 0 = Some d'
               else DICT_SIZE d' = DICT_SIZE d)
           \<and> (\<forall>e<count d. entries d' ! e = entries d ! e)
           \<and> (\<forall>e<count d'. dict_add_probe d' (hash (entries d' ! e)) (key (entries d' ! e))
                               (unat (hash (entries d' ! e)) AND DICT_MASK d') = Some (Found e))"
proof -
  let ?new = "\<lparr>hash = hash_key k :: 'w word, key = k, val = None\<rparr>"
  have inv: "dict_inv d" using assms(1) by (rule reachable_inv)
  from dict_add_insert [OF inv assms(2)] obtain d' i where
    d': "dict_add d k None = Some (Inr (True, d'))"
      "entries d' = entries d @ [?new]"
      "if DICT_SIZE d * 2 div 3 < Suc (count d)
         then size_bits d' = size_bits d + 1
           \<and> expand_dict (d\<lparr>indices := (indices d)[i := Some (count d)],
                              entries := entries d @ [?new]\<rparr>) = Some d'
         else size_bits d' = size_bits d"
      "dict_inv d'"
    by blast
  have c3: "if DICT_SIZE d * 2 div 3 < count d + 1
               then DICT_SIZE d' = 2 * DICT_SIZE d
                 \<and> expand_loop \<lparr>entries = entries d', indices = replicate (2 * DICT_SIZE d) IDX_EMPTY,
                                 size_bits = size_bits d + 1\<rparr> 0 = Some d'
               else DICT_SIZE d' = DICT_SIZE d"
  proof (cases "DICT_SIZE d * 2 div 3 < Suc (count d)")
    case True
    with d'(3) have a: "size_bits d' = size_bits d + 1"
      and b: "expand_dict (d\<lparr>indices := (indices d)[i := Some (count d)],
                              entries := entries d @ [?new]\<rparr>) = Some d'"
      by simp_all
    have "(d\<lparr>indices := (indices d)[i := Some (count d)], entries := entries d @ [?new],
              size_bits := size_bits d + 1, indices := replicate (2 * DICT_SIZE d) IDX_EMPTY\<rparr>)
          = \<lparr>entries = entries d', indices = replicate (2 * DICT_SIZE d) IDX_EMPTY,
              size_bits = size_bits d + 1\<rparr>"
      using d'(2) by simp
    with b have "expand_loop \<lparr>entries = entries d', indices = replicate (2 * DICT_SIZE d) IDX_EMPTY,
                                 size_bits = size_bits d + 1\<rparr> 0 = Some d'"
      by (simp add: expand_dict_def Let_def DICT_SIZE_pow)
    with a True show ?thesis by (simp add: DICT_SIZE_pow)
  next
    case False
    with d'(3) show ?thesis by (simp add: DICT_SIZE_pow)
  qed
  have c4: "\<forall>e<count d. entries d' ! e = entries d ! e"
    using d'(2) by (simp add: count_def nth_append)
  have core': "dict_core d'" using d'(4) by (rule inv_core)
  have c5: "\<forall>e<count d'. dict_add_probe d' (hash (entries d' ! e)) (key (entries d' ! e))
                               (unat (hash (entries d' ! e)) AND DICT_MASK d') = Some (Found e)"
  proof (intro allI impI)
    fix e assume e: "e < count d'"
    from core_hash [OF core' e] lookup_present [OF core' e]
    show "dict_add_probe d' (hash (entries d' ! e)) (key (entries d' ! e))
            (unat (hash (entries d' ! e)) AND DICT_MASK d') = Some (Found e)"
      by simp
  qed
  from d'(1,2) c3 c4 c5 show ?thesis by blast
qed


theorem growth_keeps_entries_witness:
  "case dict_add_all (new_dict :: 64 word dict_t)
          [[1], [2], [3], [4], [5], [6], [7], [8], [9], [10], [11], [12], [13], [14], [15], [16], [17], [18], [19], [20], [21]] of
     Some (Inr d) \<Rightarrow>
       reachable d \<and> [22] \<notin> set (map key (entries d))
       \<and> DICT_SIZE d = 32 \<and> count d = 21 \<and> DICT_SIZE d * 2 div 3 < count d + 1
       \<and> (\<exists>d'. dict_add d [22] None = Some (Inr (True, d'))
              \<and> DICT_SIZE d' = 64 \<and> count d' = 22
              \<and> (\<forall>e<count d'. dict_add_probe d' (hash (entries d' ! e)) (key (entries d' ! e))
                                 (unat (hash (entries d' ! e)) AND DICT_MASK d') = Some (Found e)))
   | _ \<Rightarrow> False"
proof -
  let ?ks = "[[1], [2], [3], [4], [5], [6], [7], [8], [9], [10], [11], [12], [13], [14], [15], [16], [17], [18], [19], [20], [21]] :: byte list list"
  have dist: "distinct ?ks" by simp
  have fresh: "set ?ks \<inter> set (map key (entries (new_dict :: 64 word dict_t))) = {}"
    by (simp add: new_dict_def)
  from dict_add_all_fresh [OF dict_inv_new_dict dist fresh] obtain d where
    d: "dict_add_all (new_dict :: 64 word dict_t) ?ks = Some (Inr d)"
      "entries d = entries (new_dict :: 64 word dict_t)
                     @ map (\<lambda>s. \<lparr>hash = hash_key s, key = s, val = None\<rparr>) ?ks"
      "count (new_dict :: 64 word dict_t) + length ?ks \<le> DICT_SIZE (new_dict :: 64 word dict_t) * 2 div 3
         \<longrightarrow> size_bits d = size_bits (new_dict :: 64 word dict_t)"
    by blast
  have keys: "map key (entries d) = ?ks"
    using d(2) by (simp add: new_dict_def)
  have cnt: "count d = 21"
    using d(2) by (simp add: count_def new_dict_def)
  have size: "DICT_SIZE d = 32"
    using d(3) by (simp add: count_def new_dict_def DICT_SIZE_def DICT_INIT_BITS_def)
  have reach: "reachable d"
    using reachable.new d(1) by (rule dict_add_all_reachable)
  have absent: "[22] \<notin> set (map key (entries d))"
    unfolding keys by simp
  from growth_keeps_entries [OF reach absent] obtain d' where
    d': "dict_add d [22] None = Some (Inr (True, d'))"
      "entries d' = entries d @ [\<lparr>hash = hash_key [22], key = [22], val = None\<rparr>]"
      "if DICT_SIZE d * 2 div 3 < count d + 1 then DICT_SIZE d' = 2 * DICT_SIZE d
         \<and> expand_loop \<lparr>entries = entries d', indices = replicate (2 * DICT_SIZE d) IDX_EMPTY,
                         size_bits = size_bits d + 1\<rparr> 0 = Some d'
       else DICT_SIZE d' = DICT_SIZE d"
      "\<forall>e<count d'. dict_add_probe d' (hash (entries d' ! e)) (key (entries d' ! e))
                               (unat (hash (entries d' ! e)) AND DICT_MASK d') = Some (Found e)"
    by blast
  have "DICT_SIZE d' = 64" using d'(3) cnt size by simp
  moreover have "count d' = 22" using d'(2) cnt by (simp add: count_def)
  ultimately have "\<exists>d'. dict_add d [22] None = Some (Inr (True, d'))
              \<and> DICT_SIZE d' = 64 \<and> count d' = 22
              \<and> (\<forall>e<count d'. dict_add_probe d' (hash (entries d' ! e)) (key (entries d' ! e))
                                 (unat (hash (entries d' ! e)) AND DICT_MASK d') = Some (Found e))"
    using d'(1,4) by blast
  with reach absent size cnt show ?thesis
    unfolding d(1) by simp
qed

section \<open>Memory and the symbol table\<close>

lemma nth_memcpy:
  assumes "a + length bs \<le> length mem" "i < length mem"
  shows "memcpy mem a bs ! i = (if a \<le> i \<and> i < a + length bs then bs ! (i - a) else mem ! i)"
  using assms by (auto simp: memcpy_def nth_append min_def)

lemma load32_store32_word:
  "ucast (ucast w :: byte) OR push_bit 8 (ucast (ucast (drop_bit 8 w) :: byte))
     OR push_bit 16 (ucast (ucast (drop_bit 16 w) :: byte))
     OR push_bit 24 (ucast (ucast (drop_bit 24 w) :: byte)) = (w :: 32 word)"
  (is "?l = w")
proof (rule bit_word_eqI)
  fix n :: nat assume "n < LENGTH(32)"
  then have n: "n < 32" by simp
  consider "n < 8" | "8 \<le> n" "n < 16" | "16 \<le> n" "n < 24" | "24 \<le> n" by linarith
  then show "bit ?l n = bit w n"
    using n by cases (auto simp: bit_simps)
qed

lemma load32_memcpy_store32:
  assumes "a + 4 \<le> length mem"
  shows "load32 (memcpy mem a (store32 w)) a = w"
proof -
  have l: "length (store32 w) = 4" by (simp add: store32_def)
  have "memcpy mem a (store32 w) ! (a + j) = store32 w ! j" if "j < 4" for j
    using that assms l by (simp add: nth_memcpy)
  from this [of 0] this [of 1] this [of 2] this [of 3]
  show ?thesis
    using load32_store32_word [of w] by (simp add: load32_def store32_def)
qed

lemma load32_cong:
  assumes "\<forall>j<4. mem' ! (a + j) = mem ! (a + j)"
  shows "load32 mem' a = load32 mem a"
proof -
  have "mem' ! (a + j) = mem ! (a + j)" if "j < 4" for j
    using assms that by blast
  from this [of 0] this [of 1] this [of 2] this [of 3]
  show ?thesis by (simp add: load32_def)
qed

section \<open>Re-emission of one symbol and of the string table\<close>

lemma length_strncpy8: "length (strncpy8 s) = 8"
  by (simp add: strncpy8_def min_def)

lemma strncpy8_short: "length s \<le> 8 \<Longrightarrow> strncpy8 s = s @ replicate (8 - length s) 0"
  by (simp add: strncpy8_def)

lemma names_rewritten_memcpy:
  assumes "sym_addr p + 8 \<le> length mem" "length bs = 8"
  shows "names_rewritten mem (memcpy mem (sym_addr p) bs) [p]"
  using assms by (simp add: names_rewritten_def length_memcpy nth_memcpy)

lemma ShortName_memcpy:
  assumes "sym_addr p + 8 \<le> length mem" "length bs = 8"
  shows "ShortName (memcpy mem (sym_addr p) bs) p = bs"
  using drop_memcpy [of "sym_addr p" mem bs] assms by (simp add: ShortName_def)

lemma memcpy_twice:
  assumes "a + 8 \<le> length mem" "length z = 4" "length x = 4"
  shows "memcpy (memcpy mem a z) (a + 4) x = memcpy mem a (z @ x)"
  using assms by (simp add: memcpy_def min_def add.commute)

lemma emit_symbol_spec:
  assumes mem: "sym_addr p + 8 \<le> length mem" and wf: "buf_wf b"
  shows "\<exists>mem' b'. emit_symbol mem p b s = Some (mem', b')
           \<and> names_rewritten mem mem' [p] \<and> buf_wf b' \<and> cnt b \<le> cnt b'
           \<and> take (cnt b) (buf b') = take (cnt b) (buf b)
           \<and> (if length s \<le> 8 then ShortName mem' p = strncpy8 s \<and> b' = b
               else Name_Short mem' p = 0 \<and> Name_Long mem' p = of_nat (cnt b)
                 \<and> buf_cat b s = Some (cnt b, b')
                 \<and> cnt b' = cnt b + (length s + 1)
                 \<and> take (length s + 1) (drop (cnt b) (buf b')) = s @ [0]
                 \<and> ShortName mem' p = store32 0 @ store32 (of_nat (cnt b)))"
proof (cases "length s \<le> 8")
  case True
  let ?mem' = "memcpy mem (sym_addr p) (strncpy8 s)"
  have "emit_symbol mem p b s = Some (?mem', b)"
    using True by (simp add: emit_symbol_def)
  moreover have "names_rewritten mem ?mem' [p]"
    using mem length_strncpy8 by (rule names_rewritten_memcpy)
  moreover have "ShortName ?mem' p = strncpy8 s"
    using mem length_strncpy8 by (rule ShortName_memcpy)
  ultimately show ?thesis using True wf by auto
next
  case False
  let ?a = "sym_addr p"
  from buf_cat_spec [OF wf, of s] obtain b' where
    b': "buf_cat b s = Some (cnt b, b')" "cnt b' = cnt b + (length s + 1)"
      "take (length s + 1) (drop (cnt b) (buf b')) = s @ [0]"
      "take (cnt b) (buf b') = take (cnt b) (buf b)" "buf_wf b'"
    by blast
  let ?m1 = "memcpy mem ?a (store32 0)"
  let ?mem' = "memcpy ?m1 (?a + 4) (store32 (of_nat (cnt b)))"
  have l4: "length (store32 w) = 4" for w by (simp add: store32_def)
  have len1: "length ?m1 = length mem"
    using mem by (simp add: length_memcpy l4)
  have len': "length ?mem' = length mem"
    using mem len1 by (simp add: length_memcpy l4)
  have r: "emit_symbol mem p b s = Some (?mem', b')"
    using False b'(1) by (simp add: emit_symbol_def)
  have nth': "?mem' ! i = (if ?a + 4 \<le> i \<and> i < ?a + 8 then store32 (of_nat (cnt b)) ! (i - (?a + 4))
                           else ?m1 ! i)" if "i < length mem" for i
    using that mem len1 nth_memcpy [of "?a + 4" "store32 (of_nat (cnt b))" ?m1 i]
    by (simp add: l4)
  have nth1: "?m1 ! i = (if ?a \<le> i \<and> i < ?a + 4 then store32 0 ! (i - ?a) else mem ! i)"
    if "i < length mem" for i
    using that mem nth_memcpy [of ?a "store32 0" mem i] by (simp add: l4)
  have frame: "names_rewritten mem ?mem' [p]"
    unfolding names_rewritten_def using len' nth' nth1 by auto
  have "\<forall>j<4. ?mem' ! (?a + j) = ?m1 ! (?a + j)"
    using nth' mem by auto
  then have "load32 ?mem' ?a = load32 ?m1 ?a"
    by (rule load32_cong)
  also have "\<dots> = 0"
    using mem by (intro load32_memcpy_store32) simp
  finally have short: "Name_Short ?mem' p = 0"
    by (simp add: Name_Short_def)
  have long: "Name_Long ?mem' p = of_nat (cnt b)"
    unfolding Name_Long_def using mem len1 by (intro load32_memcpy_store32) simp
  have "?mem' = memcpy mem ?a (store32 0 @ store32 (of_nat (cnt b)))"
    using mem by (intro memcpy_twice) (simp_all add: l4)
  then have sn: "ShortName ?mem' p = store32 0 @ store32 (of_nat (cnt b))"
    using mem ShortName_memcpy [of p mem "store32 0 @ store32 (of_nat (cnt b))"]
    by (simp add: l4)
  from r frame b' short long sn False show ?thesis by auto
qed

lemma emit_symbol_buffer:
  assumes wf: "buf_wf b"
  shows "\<exists>mem' b'. emit_symbol mem p b s = Some (mem', b') \<and> buf_wf b'
           \<and> cnt b' = (if length s \<le> 8 then cnt b else cnt b + (length s + 1))
           \<and> take (cnt b) (buf b') = take (cnt b) (buf b)"
proof (cases "length s \<le> 8")
  case True
  then show ?thesis using wf by (simp add: emit_symbol_def)
next
  case False
  from buf_cat_spec [OF wf, of s] obtain b' where
    "buf_cat b s = Some (cnt b, b')" "cnt b' = cnt b + (length s + 1)"
    "take (cnt b) (buf b') = take (cnt b) (buf b)" "buf_wf b'"
    by blast
  with False show ?thesis by (simp add: emit_symbol_def)
qed

text \<open>The buffer after the re-emission loop, whatever the memory is.\<close>

lemma emit_loop_buffer:
  fixes es :: "('w::len) word entry_t list"
  assumes "buf_wf b"
  shows "\<exists>mem' b'. emit_loop es p mem b = Some (mem', b') \<and> buf_wf b'
           \<and> cnt b' = cnt b + sum_list (map (\<lambda>s. length s + 1)
                                      (filter (\<lambda>s. 8 < length s) (map effective_name es)))
           \<and> take (cnt b) (buf b') = take (cnt b) (buf b)"
  using assms
proof (induction es arbitrary: p mem b)
  case Nil
  then show ?case by simp
next
  case (Cons en es)
  let ?s = "effective_name en"
  from emit_symbol_buffer [OF Cons.prems, of mem p ?s] obtain mem1 b1 where
    s1: "emit_symbol mem p b ?s = Some (mem1, b1)" "buf_wf b1"
      "cnt b1 = (if length ?s \<le> 8 then cnt b else cnt b + (length ?s + 1))"
      "take (cnt b) (buf b1) = take (cnt b) (buf b)"
    by blast
  from Cons.IH [OF s1(2), of "p + (NumberOfAuxSymbols mem1 p + 1)" mem1] obtain mem' b' where
    s2: "emit_loop es (p + (NumberOfAuxSymbols mem1 p + 1)) mem1 b1 = Some (mem', b')" "buf_wf b'"
      "cnt b' = cnt b1 + sum_list (map (\<lambda>s. length s + 1)
                                      (filter (\<lambda>s. 8 < length s) (map effective_name es)))"
      "take (cnt b1) (buf b') = take (cnt b1) (buf b1)"
    by blast
  have r: "emit_loop (en # es) p mem b = Some (mem', b')"
    using s1(1) s2(1) by simp
  have c: "cnt b' = cnt b + sum_list (map (\<lambda>s. length s + 1)
                                      (filter (\<lambda>s. 8 < length s) (map effective_name (en # es))))"
    using s1(3) s2(3) by simp
  have "cnt b \<le> cnt b1" using s1(3) by simp
  then have "take (cnt b) (buf b') = take (cnt b) (take (cnt b1) (buf b'))"
    by (simp add: min_def)
  also have "\<dots> = take (cnt b) (buf b1)"
    using s2(4) \<open>cnt b \<le> cnt b1\<close> by (simp add: min_def)
  finally have "take (cnt b) (buf b') = take (cnt b) (buf b)"
    using s1(4) by simp
  with r s2(2) c show ?case by blast
qed

lemma buf_wf_start: "buf_wf (new_buf\<lparr>cnt := 4\<rparr>)"
  by (simp add: buf_wf_def new_buf_def BUF_INIT_SIZE_def)

lemma store32_header:
  assumes "4 \<le> length bs"
  shows "take 4 (memcpy bs 0 (store32 w)) = store32 w"
    and "drop 4 (memcpy bs 0 (store32 w)) = drop 4 bs"
    and "load32 (memcpy bs 0 (store32 w)) 0 = w"
    and "length (memcpy bs 0 (store32 w)) = length bs"
proof -
  have l4: "length (store32 w) = 4" by (simp add: store32_def)
  show "take 4 (memcpy bs 0 (store32 w)) = store32 w"
    by (simp add: memcpy_def l4)
  show "drop 4 (memcpy bs 0 (store32 w)) = drop 4 bs"
    by (simp add: memcpy_def l4)
  show "load32 (memcpy bs 0 (store32 w)) 0 = w"
    using assms by (intro load32_memcpy_store32) simp
  show "length (memcpy bs 0 (store32 w)) = length bs"
    using assms by (simp add: length_memcpy l4)
qed

section \<open>The claims about re-emission and the buffer\<close>



text \<open>
  C7 (as stated, it fails). The buffer that \<^verbatim>\<open>new_buf\<close> creates has logical length
  0, not 4.
\<close>

theorem new_buf_starts_empty: "cnt new_buf \<noteq> 4"
  by (simp add: new_buf_def)

text \<open>
  C7 (as amended). \<^verbatim>\<open>new_buf\<close> creates the buffer with logical length 0. The
  re-emission code of \<^verbatim>\<open>main\<close> sets the length to 4 before the first append, its
  loop returns and leaves the first 4 bytes as they were, and the one store after
  the loop puts the final length (as a \<^verbatim>\<open>DWORD\<close>) into them and changes nothing
  else. The final length is 4 plus the lengths, terminators included, of the names
  longer than 8 bytes.
\<close>

theorem reemit_string_table_header:
  fixes d :: "('w::len) word dict_t"
  shows "cnt new_buf = 0
       \<and> (\<exists>mem' b0 b. emit_loop (entries d) 0 mem (new_buf\<lparr>cnt := 4\<rparr>) = Some (mem', b0)
             \<and> take 4 (buf b0) = take 4 (buf new_buf)
             \<and> reemit d mem = Some (mem', b)
             \<and> cnt b = cnt b0 \<and> drop 4 (buf b) = drop 4 (buf b0)
             \<and> take 4 (buf b) = store32 (of_nat (cnt b))
             \<and> load32 (buf b) 0 = of_nat (cnt b)
             \<and> cnt b = 4 + sum_list (map (\<lambda>s. length s + 1)
                            (filter (\<lambda>s. 8 < length s) (map effective_name (entries d)))))"
proof -
  let ?b = "new_buf\<lparr>cnt := 4\<rparr>"
  from emit_loop_buffer [OF buf_wf_start, of "entries d" 0 mem] obtain mem' b0 where
    h: "emit_loop (entries d) 0 mem ?b = Some (mem', b0)" "buf_wf b0"
      "cnt b0 = cnt ?b + sum_list (map (\<lambda>s. length s + 1)
                            (filter (\<lambda>s. 8 < length s) (map effective_name (entries d))))"
      "take (cnt ?b) (buf b0) = take (cnt ?b) (buf ?b)"
    by blast
  let ?w = "of_nat (cnt b0) :: 32 word"
  let ?r = "b0\<lparr>buf := memcpy (buf b0) 0 (store32 ?w)\<rparr>"
  have len: "4 \<le> length (buf b0)"
    using h(2,3) by (simp add: buf_wf_def)
  have "reemit d mem = Some (mem', ?r)"
    using h(1) by (simp add: reemit_def)
  moreover have "take 4 (buf b0) = take 4 (buf new_buf)"
    using h(4) by simp
  moreover have "cnt ?r = 4 + sum_list (map (\<lambda>s. length s + 1)
                            (filter (\<lambda>s. 8 < length s) (map effective_name (entries d))))"
    using h(3) by simp
  moreover have "cnt ?r = cnt b0" by simp
  moreover have "drop 4 (buf ?r) = drop 4 (buf b0)"
    using store32_header(2) [OF len] by simp
  moreover have "take 4 (buf ?r) = store32 (of_nat (cnt ?r))"
    using store32_header(1) [OF len] by simp
  moreover have "load32 (buf ?r) 0 = of_nat (cnt ?r)"
    using store32_header(3) [OF len] by simp
  moreover have "cnt new_buf = 0" by (simp add: new_buf_def)
  ultimately show ?thesis using h(1) by blast
qed

section \<open>The traversal and the re-emission loop\<close>

lemma primaries_Nil: "\<not> i < nsym \<Longrightarrow> primaries mem nsym i = []"
  by (subst primaries.simps) simp

lemma primaries_Cons:
  "i < nsym \<Longrightarrow> primaries mem nsym i = i # primaries mem nsym (i + NumberOfAuxSymbols mem i + 1)"
  by (subst primaries.simps) simp

lemma primaries_bounds: "q \<in> set (primaries mem nsym i) \<Longrightarrow> i \<le> q \<and> q < nsym"
proof (induction mem nsym i rule: primaries.induct)
  case (1 mem nsym i)
  show ?case
  proof (cases "i < nsym")
    case True
    with "1.prems" have "q = i \<or> q \<in> set (primaries mem nsym (i + NumberOfAuxSymbols mem i + 1))"
      by (simp add: primaries_Cons)
    then show ?thesis
    proof
      assume "q = i" with True show ?thesis by simp
    next
      assume "q \<in> set (primaries mem nsym (i + NumberOfAuxSymbols mem i + 1))"
      with "1.IH" [OF True] show ?thesis by simp
    qed
  next
    case False
    with "1.prems" show ?thesis by (simp add: primaries_Nil)
  qed
qed

lemma primaries_cong:
  assumes "\<forall>i<nsym. NumberOfAuxSymbols mem' i = NumberOfAuxSymbols mem i"
  shows "primaries mem' nsym i = primaries mem nsym i"
  using assms
proof (induction mem nsym i rule: primaries.induct)
  case (1 mem nsym i)
  show ?case
  proof (cases "i < nsym")
    case True
    with "1.prems" have a: "NumberOfAuxSymbols mem' i = NumberOfAuxSymbols mem i" by simp
    from "1.IH" [OF True "1.prems"] a True show ?thesis
      by (simp add: primaries_Cons)
  next
    case False
    then show ?thesis by (simp add: primaries_Nil)
  qed
qed

lemma sym_addr_mono: "i \<le> j \<Longrightarrow> sym_addr i \<le> sym_addr j"
  by (simp add: sym_addr_def)

lemma sym_addr_Suc: "sym_addr (Suc i) = sym_addr i + 18"
  by (simp add: sym_addr_def IMAGE_SIZEOF_SYMBOL_def)

lemma record_in_memory:
  assumes "sym_addr nsym \<le> length mem" "i < nsym"
  shows "sym_addr i + 18 \<le> length mem"
proof -
  have "sym_addr i + 18 = sym_addr (Suc i)"
    by (simp add: sym_addr_Suc)
  also have "\<dots> \<le> sym_addr nsym"
    using assms(2) by (intro sym_addr_mono) simp
  finally show ?thesis using assms(1) by simp
qed

lemma fields_apart:
  assumes "q \<noteq> p" "sym_addr p \<le> a" "a < sym_addr p + 18"
  shows "a < sym_addr q \<or> sym_addr q + 8 \<le> a"
proof (cases "q < p")
  case True
  then have "sym_addr (Suc q) \<le> sym_addr p" by (intro sym_addr_mono) simp
  then show ?thesis using assms(2) by (simp add: sym_addr_Suc)
next
  case False
  with assms(1) have "Suc p \<le> q" by simp
  then have "sym_addr (Suc p) \<le> sym_addr q" by (rule sym_addr_mono)
  then show ?thesis using assms(3) by (simp add: sym_addr_Suc)
qed

lemma names_rewritten_aux:
  assumes "names_rewritten mem mem' qs" "sym_addr nsym \<le> length mem" "i < nsym"
  shows "NumberOfAuxSymbols mem' i = NumberOfAuxSymbols mem i"
proof -
  let ?a = "sym_addr i + 17"
  have "?a < length mem" using record_in_memory [OF assms(2,3)] by simp
  moreover have "\<forall>q\<in>set qs. ?a < sym_addr q \<or> sym_addr q + 8 \<le> ?a"
  proof
    fix q assume "q \<in> set qs"
    show "?a < sym_addr q \<or> sym_addr q + 8 \<le> ?a"
    proof (cases "q = i")
      case True then show ?thesis by simp
    next
      case False then show ?thesis by (rule fields_apart) simp_all
    qed
  qed
  ultimately have "mem' ! ?a = mem ! ?a"
    using assms(1) unfolding names_rewritten_def by blast
  then show ?thesis by (simp add: NumberOfAuxSymbols_def)
qed

lemma names_rewritten_trans:
  assumes "names_rewritten mem mem1 [p]" "names_rewritten mem1 mem' qs"
  shows "names_rewritten mem mem' (p # qs)"
  using assms unfolding names_rewritten_def by auto

lemma names_rewritten_field:
  assumes "names_rewritten mem1 mem' qs" "p \<notin> set qs" "sym_addr p + 8 \<le> length mem1"
  shows "ShortName mem' p = ShortName mem1 p"
proof -
  have len: "length mem' = length mem1"
    using assms(1) by (simp add: names_rewritten_def)
  have same: "mem' ! (sym_addr p + j) = mem1 ! (sym_addr p + j)" if "j < 8" for j
  proof -
    have "\<forall>q\<in>set qs. sym_addr p + j < sym_addr q \<or> sym_addr q + 8 \<le> sym_addr p + j"
    proof
      fix q assume "q \<in> set qs"
      with assms(2) have "q \<noteq> p" by auto
      moreover have "sym_addr p \<le> sym_addr p + j" by simp
      moreover have "sym_addr p + j < sym_addr p + 18" using that by simp
      ultimately show "sym_addr p + j < sym_addr q \<or> sym_addr q + 8 \<le> sym_addr p + j"
        by (rule fields_apart)
    qed
    moreover have "sym_addr p + j < length mem1" using that assms(3) by simp
    ultimately show ?thesis using assms(1) unfolding names_rewritten_def by blast
  qed
  show ?thesis
    unfolding ShortName_def
  proof (rule nth_equalityI)
    show "length (take 8 (drop (sym_addr p) mem')) = length (take 8 (drop (sym_addr p) mem1))"
      using len by simp
    fix j assume "j < length (take 8 (drop (sym_addr p) mem'))"
    then have j: "j < 8" by simp
    then show "take 8 (drop (sym_addr p) mem') ! j = take 8 (drop (sym_addr p) mem1) ! j"
      using same [OF j] assms(3) len by simp
  qed
qed

lemma load32_eqI:
  assumes "xs ! a = ys ! b" "xs ! (a + 1) = ys ! (b + 1)"
    "xs ! (a + 2) = ys ! (b + 2)" "xs ! (a + 3) = ys ! (b + 3)"
  shows "load32 xs a = load32 ys b"
  unfolding load32_def by (simp only: assms)

lemma name_words_of_field:
  assumes "sym_addr p + 8 \<le> length mem"
  shows "Name_Short mem p = load32 (ShortName mem p) 0"
    and "Name_Long mem p = load32 (ShortName mem p) 4"
proof -
  show "Name_Short mem p = load32 (ShortName mem p) 0"
    unfolding Name_Short_def ShortName_def
    using assms by (intro load32_eqI) simp_all
  show "Name_Long mem p = load32 (ShortName mem p) 4"
    unfolding Name_Long_def ShortName_def
    using assms by (intro load32_eqI) (simp_all add: ac_simps)
qed

lemma string_in_prefix:
  assumes "take n (drop off st1) = xs" "length xs = n" "take (length st1) st' = st1"
  shows "take n (drop off st') = xs"
proof -
  from assms(1,2) have "length (take n (drop off st1)) = n" by simp
  then have le: "n \<le> length st1 - off" by simp
  have "st' = st1 @ drop (length st1) st'"
    using assms(3) by (metis append_take_drop_id)
  then obtain r where st': "st' = st1 @ r" by blast
  show ?thesis
    unfolding st' using assms(1) le by simp
qed

lemma carries_preserved:
  assumes "carries mem1 st1 p s" "ShortName mem' p = ShortName mem1 p"
    "sym_addr p + 8 \<le> length mem1" "length mem' = length mem1"
    "take (length st1) st' = st1"
  shows "carries mem' st' p s"
proof (cases "length s \<le> 8")
  case True
  with assms(1,2) show ?thesis by (simp add: carries_def)
next
  case False
  with assms(1) obtain off where
    off: "Name_Short mem1 p = 0" "Name_Long mem1 p = of_nat off" "4 \<le> off"
      "take (length s + 1) (drop off st1) = s @ [0]"
    unfolding carries_def by auto
  have "Name_Short mem' p = Name_Short mem1 p" "Name_Long mem' p = Name_Long mem1 p"
    using assms(2,3,4) by (simp_all add: name_words_of_field)
  moreover have "take (length s + 1) (drop off st') = s @ [0]"
    using off(4) _ assms(5) by (rule string_in_prefix) simp
  ultimately show ?thesis
    using False off unfolding carries_def by auto
qed

lemma emit_symbol_carries:
  assumes mem: "sym_addr p + 8 \<le> length mem" and wf: "buf_wf b" and four: "4 \<le> cnt b"
  shows "\<exists>mem' b'. emit_symbol mem p b s = Some (mem', b')
           \<and> names_rewritten mem mem' [p] \<and> buf_wf b' \<and> cnt b \<le> cnt b'
           \<and> take (cnt b) (buf b') = take (cnt b) (buf b)
           \<and> carries mem' (take (cnt b') (buf b')) p s"
proof -
  from emit_symbol_spec [OF mem wf, of s] obtain mem' b' where
    h: "emit_symbol mem p b s = Some (mem', b')" "names_rewritten mem mem' [p]" "buf_wf b'"
      "cnt b \<le> cnt b'" "take (cnt b) (buf b') = take (cnt b) (buf b)"
      "if length s \<le> 8 then ShortName mem' p = strncpy8 s \<and> b' = b
       else Name_Short mem' p = 0 \<and> Name_Long mem' p = of_nat (cnt b)
         \<and> buf_cat b s = Some (cnt b, b')
         \<and> cnt b' = cnt b + (length s + 1)
         \<and> take (length s + 1) (drop (cnt b) (buf b')) = s @ [0]
         \<and> ShortName mem' p = store32 0 @ store32 (of_nat (cnt b))"
    by blast
  have "carries mem' (take (cnt b') (buf b')) p s"
  proof (cases "length s \<le> 8")
    case True
    with h(6) show ?thesis by (simp add: carries_def strncpy8_short)
  next
    case False
    with h(6) have l: "Name_Short mem' p = 0" "Name_Long mem' p = of_nat (cnt b)"
      "cnt b' = cnt b + (length s + 1)"
      "take (length s + 1) (drop (cnt b) (buf b')) = s @ [0]"
      by simp_all
    have "take (length s + 1) (drop (cnt b) (take (cnt b') (buf b'))) = s @ [0]"
      using l(3,4) by (simp add: drop_take)
    with l(1,2) four False show ?thesis
      unfolding carries_def by auto
  qed
  with h(1-5) show ?thesis by blast
qed

lemma emit_loop_correct:
  fixes es :: "('w::len) word entry_t list"
  assumes "sym_addr nsym \<le> length mem" and "length es \<le> length (primaries mem nsym p)"
    and "buf_wf b" and "4 \<le> cnt b"
  shows "\<exists>mem' b'. emit_loop es p mem b = Some (mem', b')
           \<and> names_rewritten mem mem' (take (length es) (primaries mem nsym p))
           \<and> buf_wf b' \<and> cnt b \<le> cnt b'
           \<and> take (cnt b) (buf b') = take (cnt b) (buf b)
           \<and> (\<forall>i<length es. carries mem' (take (cnt b') (buf b'))
                                (primaries mem nsym p ! i) (effective_name (es ! i)))"
  using assms
proof (induction es arbitrary: p mem b)
  case Nil
  then show ?case by (simp add: names_rewritten_def)
next
  case (Cons en es)
  let ?s = "effective_name en"
  have p: "p < nsym"
  proof (rule ccontr)
    assume "\<not> p < nsym"
    then have "primaries mem nsym p = []" by (rule primaries_Nil)
    with Cons.prems(2) show False by simp
  qed
  let ?p1 = "p + NumberOfAuxSymbols mem p + 1"
  have ps: "primaries mem nsym p = p # primaries mem nsym ?p1"
    using p by (rule primaries_Cons)
  have rec: "sym_addr p + 18 \<le> length mem"
    using Cons.prems(1) p by (rule record_in_memory)
  then have field: "sym_addr p + 8 \<le> length mem" by simp
  from emit_symbol_carries [OF field Cons.prems(3,4), of ?s] obtain mem1 b1 where
    s1: "emit_symbol mem p b ?s = Some (mem1, b1)" "names_rewritten mem mem1 [p]" "buf_wf b1"
      "cnt b \<le> cnt b1" "take (cnt b) (buf b1) = take (cnt b) (buf b)"
      "carries mem1 (take (cnt b1) (buf b1)) p ?s"
    by blast
  have len1: "length mem1 = length mem"
    using s1(2) by (simp add: names_rewritten_def)
  have aux1: "\<forall>i<nsym. NumberOfAuxSymbols mem1 i = NumberOfAuxSymbols mem i"
    using s1(2) Cons.prems(1) by (blast intro: names_rewritten_aux)
  have prim1: "primaries mem1 nsym q = primaries mem nsym q" for q
    using aux1 by (rule primaries_cong)
  have next1: "p + (NumberOfAuxSymbols mem1 p + 1) = ?p1"
    using aux1 p by simp
  have a1: "sym_addr nsym \<le> length mem1" using Cons.prems(1) len1 by simp
  have a2: "length es \<le> length (primaries mem1 nsym ?p1)"
    using Cons.prems(2) ps prim1 by simp
  have a4: "4 \<le> cnt b1" using Cons.prems(4) s1(4) by simp
  from Cons.IH [OF a1 a2 s1(3) a4] obtain mem' b' where
    s2: "emit_loop es ?p1 mem1 b1 = Some (mem', b')"
      "names_rewritten mem1 mem' (take (length es) (primaries mem1 nsym ?p1))"
      "buf_wf b'" "cnt b1 \<le> cnt b'" "take (cnt b1) (buf b') = take (cnt b1) (buf b1)"
      "\<forall>i<length es. carries mem' (take (cnt b') (buf b'))
                                (primaries mem1 nsym ?p1 ! i) (effective_name (es ! i))"
    by blast
  let ?qs = "take (length es) (primaries mem nsym ?p1)"
  have r: "emit_loop (en # es) p mem b = Some (mem', b')"
    using s1(1) s2(1) next1 by simp
  have frame: "names_rewritten mem mem' (take (length (en # es)) (primaries mem nsym p))"
    using names_rewritten_trans [OF s1(2) s2(2)] ps prim1 by simp
  have c1: "cnt b \<le> cnt b'" using s1(4) s2(4) by simp
  have "take (cnt b) (buf b') = take (cnt b) (take (cnt b1) (buf b'))"
    using s1(4) by (simp add: min_def)
  also have "\<dots> = take (cnt b) (buf b1)"
    using s2(5) s1(4) by (simp add: min_def)
  finally have c2: "take (cnt b) (buf b') = take (cnt b) (buf b)"
    using s1(5) by simp
  have notin: "p \<notin> set (take (length es) (primaries mem1 nsym ?p1))"
  proof
    assume "p \<in> set (take (length es) (primaries mem1 nsym ?p1))"
    then have "p \<in> set (primaries mem nsym ?p1)"
      using prim1 by (auto dest: in_set_takeD)
    then have "?p1 \<le> p" using primaries_bounds by blast
    then show False by simp
  qed
  have sn: "ShortName mem' p = ShortName mem1 p"
    using s2(2) notin field len1 by (intro names_rewritten_field) simp_all
  have len': "length mem' = length mem1"
    using s2(2) by (simp add: names_rewritten_def)
  have pre: "take (length (take (cnt b1) (buf b1))) (take (cnt b') (buf b')) = take (cnt b1) (buf b1)"
  proof -
    have "cnt b1 \<le> length (buf b1)" using s1(3) by (simp add: buf_wf_def)
    then have "length (take (cnt b1) (buf b1)) = cnt b1" by simp
    then show ?thesis using s2(4,5) by (simp add: min_def)
  qed
  have first: "carries mem' (take (cnt b') (buf b')) p ?s"
    using s1(6) sn _ len' pre by (rule carries_preserved) (simp add: field len1)
  have all: "\<forall>i<length (en # es). carries mem' (take (cnt b') (buf b'))
                                (primaries mem nsym p ! i) (effective_name ((en # es) ! i))"
  proof (intro allI impI)
    fix i assume i: "i < length (en # es)"
    show "carries mem' (take (cnt b') (buf b'))
            (primaries mem nsym p ! i) (effective_name ((en # es) ! i))"
    proof (cases i)
      case 0
      with first ps show ?thesis by simp
    next
      case (Suc j)
      with i have "j < length es" by simp
      with s2(6) have "carries mem' (take (cnt b') (buf b'))
                         (primaries mem1 nsym ?p1 ! j) (effective_name (es ! j))"
        by blast
      with Suc ps prim1 show ?thesis by simp
    qed
  qed
  from r frame s2(3) c1 c2 all show ?case by blast
qed

text \<open>
  The loop of \<^verbatim>\<open>get_symbol_names\<close> does to the dictionary what adding the decoded
  names in order does.
\<close>

lemma get_symbol_names_loop_eq:
  fixes d :: "('w::len) word dict_t"
  assumes "map (symbol_name mem nsym) (primaries mem nsym i) = map Some ss"
  shows "get_symbol_names_loop mem nsym i d = dict_add_all d ss"
  using assms
proof (induction ss arbitrary: i d)
  case Nil
  then have "primaries mem nsym i = []" by simp
  then have "\<not> i < nsym" by (auto simp: primaries_Cons)
  then show ?case by (subst get_symbol_names_loop.simps) simp
next
  case (Cons s ss)
  have i: "i < nsym"
  proof (rule ccontr)
    assume "\<not> i < nsym"
    then have "primaries mem nsym i = []" by (rule primaries_Nil)
    with Cons.prems show False by simp
  qed
  let ?i1 = "i + NumberOfAuxSymbols mem i + 1"
  from Cons.prems primaries_Cons [OF i, of mem] have
    s: "symbol_name mem nsym i = Some s"
    and rest: "map (symbol_name mem nsym) (primaries mem nsym ?i1) = map Some ss"
    by simp_all
  have ih: "get_symbol_names_loop mem nsym ?i1 d' = dict_add_all d' ss" for d' :: "'w word dict_t"
    using rest by (rule Cons.IH)
  then have ih': "get_symbol_names_loop mem nsym (Suc (i + NumberOfAuxSymbols mem i)) d'
                    = dict_add_all d' ss" for d' :: "'w word dict_t"
    by simp
  show ?case
    using i s by (subst get_symbol_names_loop.simps) (simp add: ih' split: option.splits sum.splits)
qed

section \<open>The example image, evaluated\<close>

lemma example_image_bytes:
  "example_image =
     [102, 111, 111, 0, 0, 0, 0, 0, 0, 0, 0, 0, 1, 0, 0, 0, 2, 1,
      85, 85, 85, 85, 85, 85, 85, 85, 85, 85, 85, 85, 85, 85, 85, 85, 85, 85,
      98, 97, 114, 0, 0, 0, 0, 0, 8, 0, 0, 0, 1, 0, 0, 0, 2, 0,
      0, 0, 0, 0, 4, 0, 0, 0, 0, 0, 0, 0, 0, 0, 0, 0, 2, 0,
      24, 0, 0, 0,
      97, 118, 101, 114, 121, 108, 111, 110, 103, 115, 121, 109, 98, 111, 108, 110, 97, 109, 101, 0]"
  by (simp add: example_image_def bytes_of_def numeral_eq_Suc)

lemma example_primaries: "primaries example_image 4 0 = [0, 2, 3]"
proof -
  have a0: "NumberOfAuxSymbols example_image 0 = 1"
    by (simp add: NumberOfAuxSymbols_def sym_addr_def IMAGE_SIZEOF_SYMBOL_def example_image_bytes)
  have a2: "NumberOfAuxSymbols example_image 2 = 0"
    by (simp add: NumberOfAuxSymbols_def sym_addr_def IMAGE_SIZEOF_SYMBOL_def example_image_bytes)
  have a3: "NumberOfAuxSymbols example_image 3 = 0"
    by (simp add: NumberOfAuxSymbols_def sym_addr_def IMAGE_SIZEOF_SYMBOL_def example_image_bytes)
  have "primaries example_image 4 4 = []" by (simp add: primaries_Nil)
  then have "primaries example_image 4 3 = [3]"
    using primaries_Cons [of 3 4 example_image] a3 by simp
  then have "primaries example_image 4 2 = [2, 3]"
    using primaries_Cons [of 2 4 example_image] a2 by simp
  then show ?thesis
    using primaries_Cons [of 0 4 example_image] a0 by (simp add: numeral_2_eq_2)
qed

lemma example_names:
  "symbol_name example_image 4 0 = Some (bytes_of ''foo'')"
  "symbol_name example_image 4 2 = Some (bytes_of ''bar'')"
  "symbol_name example_image 4 3 = Some (bytes_of ''averylongsymbolname'')"
  by (simp_all add: symbol_name_def Name_Short_def Name_Long_def load32_def c_string_def
      sym_addr_def IMAGE_SIZEOF_SYMBOL_def example_image_bytes bytes_of_def)

section \<open>Renames and the order of the entries\<close>

lemma change_symbol_name_Inr:
  fixes d :: "('w::len) word dict_t"
  assumes inv: "dict_inv d" and r: "change_symbol_name d old new = Some (Inr d1)"
  shows "\<exists>e<count d. key (entries d ! e) = old
           \<and> d1 = d\<lparr>entries := (entries d)[e := (entries d ! e)\<lparr>val := Some new\<rparr>]\<rparr>"
proof (cases "old \<in> set (map key (entries d))")
  case True
  from key_present [OF True] obtain e where e: "e < count d" "key (entries d ! e) = old"
    by blast
  from dict_add_existing [OF inv e(1), of "Some new"] e(2) r
  have "d1 = d\<lparr>entries := (entries d)[e := (entries d ! e)\<lparr>val := Some new\<rparr>]\<rparr>"
    by (simp add: change_symbol_name_def)
  with e show ?thesis by blast
next
  case False
  from dict_add_missing [OF inv False, of new] r show ?thesis
    by (simp add: change_symbol_name_def)
qed

lemma change_symbol_names_entries:
  fixes d :: "('w::len) word dict_t"
  assumes "dict_inv d" and "change_symbol_names d rs = Some (Inr d')"
  shows "entries d' = map (\<lambda>en. en\<lparr>val := apply_renames rs (key en) (val en)\<rparr>) (entries d)"
  using assms
proof (induction rs arbitrary: d)
  case Nil
  then show ?case by (simp add: map_idI)
next
  case (Cons r rs)
  obtain old new where r: "r = (old, new)" by (cases r)
  from Cons.prems(2) obtain d1 where
    d1: "change_symbol_name d old new = Some (Inr d1)" "change_symbol_names d1 rs = Some (Inr d')"
    unfolding r by (auto split: option.splits sum.splits)
  from change_symbol_name_Inr [OF Cons.prems(1) d1(1)] obtain e where
    e: "e < count d" "key (entries d ! e) = old"
      "d1 = d\<lparr>entries := (entries d)[e := (entries d ! e)\<lparr>val := Some new\<rparr>]\<rparr>"
    by blast
  have inv1: "dict_inv d1"
    unfolding e(3) using Cons.prems(1) e(1) by (rule dict_inv_update_val)
  from Cons.IH [OF inv1 d1(2)] have
    ih: "entries d' = map (\<lambda>en. en\<lparr>val := apply_renames rs (key en) (val en)\<rparr>) (entries d1)" .
  have "map (\<lambda>en. en\<lparr>val := apply_renames rs (key en) (val en)\<rparr>) (entries d1)
          = map (\<lambda>en. en\<lparr>val := apply_renames (r # rs) (key en) (val en)\<rparr>) (entries d)"
  proof (rule nth_equalityI)
    show "length (map (\<lambda>en. en\<lparr>val := apply_renames rs (key en) (val en)\<rparr>) (entries d1))
            = length (map (\<lambda>en. en\<lparr>val := apply_renames (r # rs) (key en) (val en)\<rparr>) (entries d))"
      by (simp add: e(3))
    fix j assume "j < length (map (\<lambda>en. en\<lparr>val := apply_renames rs (key en) (val en)\<rparr>) (entries d1))"
    then have j: "j < count d" by (simp add: e(3) count_def)
    show "map (\<lambda>en. en\<lparr>val := apply_renames rs (key en) (val en)\<rparr>) (entries d1) ! j
            = map (\<lambda>en. en\<lparr>val := apply_renames (r # rs) (key en) (val en)\<rparr>) (entries d) ! j"
    proof (cases "j = e")
      case True
      then show ?thesis using e(1,2) by (simp add: e(3) r count_def)
    next
      case False
      then have "key (entries d ! j) \<noteq> old"
        using core_key_neq [OF inv_core [OF Cons.prems(1)] e(1) j] e(2) by simp
      then show ?thesis using False j by (simp add: e(3) r count_def)
    qed
  qed
  with ih show ?case by simp
qed

lemma change_symbol_names_inv:
  fixes d :: "('w::len) word dict_t"
  assumes "dict_inv d" and "change_symbol_names d rs = Some (Inr d')"
  shows "dict_inv d'"
  using assms
proof (induction rs arbitrary: d)
  case Nil
  then show ?case by simp
next
  case (Cons r rs)
  obtain old new where r: "r = (old, new)" by (cases r)
  from Cons.prems(2) obtain d1 where
    d1: "change_symbol_name d old new = Some (Inr d1)" "change_symbol_names d1 rs = Some (Inr d')"
    unfolding r by (auto split: option.splits sum.splits)
  from change_symbol_name_Inr [OF Cons.prems(1) d1(1)] obtain e where
    e: "e < count d"
      "d1 = d\<lparr>entries := (entries d)[e := (entries d ! e)\<lparr>val := Some new\<rparr>]\<rparr>"
    by blast
  have "dict_inv d1"
    unfolding e(2) using Cons.prems(1) e(1) by (rule dict_inv_update_val)
  then show ?case using d1(2) by (rule Cons.IH)
qed

lemma carries_header:
  assumes "carries mem st0 p s" "drop 4 st = drop 4 st0"
  shows "carries mem st p s"
proof (cases "length s \<le> 8")
  case True
  with assms(1) show ?thesis by (simp add: carries_def)
next
  case False
  with assms(1) obtain off where
    off: "Name_Short mem p = 0" "Name_Long mem p = of_nat off" "4 \<le> off"
      "take (length s + 1) (drop off st0) = s @ [0]"
    unfolding carries_def by auto
  from off(3) obtain k where k: "off = k + 4" by (metis le_add_diff_inverse2)
  have "drop off st = drop k (drop 4 st)" by (simp add: k)
  also have "\<dots> = drop off st0" using assms(2) by (simp add: k)
  finally have "take (length s + 1) (drop off st) = s @ [0]"
    using off(4) by simp
  with off(1,2,3) False show ?thesis
    unfolding carries_def by auto
qed

lemma change_symbol_names_succeeds:
  fixes d :: "('w::len) word dict_t"
  assumes "dict_inv d" and "fst ` set rs \<subseteq> set (map key (entries d))"
  shows "\<exists>d'. change_symbol_names d rs = Some (Inr d')"
  using assms
proof (induction rs arbitrary: d)
  case Nil
  then show ?case by simp
next
  case (Cons r rs)
  obtain old new where r: "r = (old, new)" by (cases r)
  from Cons.prems(2) have "old \<in> set (map key (entries d))" by (simp add: r)
  from key_present [OF this] obtain e where e: "e < count d" "key (entries d ! e) = old"
    by blast
  let ?d1 = "d\<lparr>entries := (entries d)[e := (entries d ! e)\<lparr>val := Some new\<rparr>]\<rparr>"
  have c: "change_symbol_name d old new = Some (Inr ?d1)"
    using dict_add_existing [OF Cons.prems(1) e(1), of "Some new"] e(2)
    by (simp add: change_symbol_name_def)
  have inv1: "dict_inv ?d1" using Cons.prems(1) e(1) by (rule dict_inv_update_val)
  have "map key (entries ?d1) = map key (entries d)"
    using change_symbol_names_entries [OF Cons.prems(1), of "[(old, new)]" ?d1] c
    by (simp add: comp_def)
  with Cons.prems(2) have "fst ` set rs \<subseteq> set (map key (entries ?d1))" by simp
  from Cons.IH [OF inv1 this] obtain d' where "change_symbol_names ?d1 rs = Some (Inr d')"
    by blast
  with c show ?case by (simp add: r)
qed

section \<open>The claims about the symbol table\<close>

text \<open>
  C2. Let the symbol table lie inside the image, let the traversal of
  \<^verbatim>\<open>get_symbol_names\<close> visit the primary records \<open>primaries mem nsym 0\<close>, and let the
  names decoded there be \<open>S\<close>, pairwise distinct. Then \<^verbatim>\<open>get_symbol_names\<close> returns a
  dictionary whose keys in insertion order are \<open>S\<close>. After any renames that succeed
  the keys are still \<open>S\<close> in that order, re-emission returns, it visits the same
  primary records, and for every \<open>i\<close> the \<open>i\<close>-th primary record carries the
  effective name of entry \<open>i\<close>, which is the last new name given to \<open>S ! i\<close> if there
  is one and \<open>S ! i\<close> otherwise. To carry a name of at most 8 bytes is to hold its
  bytes followed by NUL bytes up to 8 in the name field; to carry a longer name is
  to hold 0 in \<^verbatim>\<open>Name.Short\<close> and in \<^verbatim>\<open>Name.Long\<close> an offset at which the new string
  table holds the bytes of the name and a NUL.
\<close>

theorem order_preserved:
  assumes "sym_addr nsym \<le> length mem"
    and "map (symbol_name mem nsym) (primaries mem nsym 0) = map Some S"
    and "distinct S"
  shows "\<exists>d :: ('w::len) word dict_t.
           get_symbol_names mem nsym = Some (Inr d) \<and> map key (entries d) = S
           \<and> (\<forall>rs d'. change_symbol_names d rs = Some (Inr d') \<longrightarrow>
                 map key (entries d') = S
                 \<and> (\<exists>mem' b. reemit d' mem = Some (mem', b)
                       \<and> primaries mem' nsym 0 = primaries mem nsym 0
                       \<and> (\<forall>i<length S.
                             effective_name (entries d' ! i)
                               = (case apply_renames rs (S ! i) None of Some v \<Rightarrow> v | None \<Rightarrow> S ! i)
                             \<and> carries mem' (take (cnt b) (buf b)) (primaries mem nsym 0 ! i)
                                 (effective_name (entries d' ! i)))))"
proof -
  let ?new = "new_dict :: 'w word dict_t"
  let ?ps = "primaries mem nsym 0"
  have lenS: "length ?ps = length S"
    using assms(2) by (metis length_map)
  have fresh: "set S \<inter> set (map key (entries ?new)) = {}"
    by (simp add: new_dict_def)
  from dict_add_all_fresh [OF dict_inv_new_dict assms(3) fresh] obtain d where
    d: "dict_add_all ?new S = Some (Inr d)"
      "entries d = entries ?new @ map (\<lambda>s. \<lparr>hash = hash_key s, key = s, val = None\<rparr>) S"
      "dict_inv d"
    by blast
  have es: "entries d = map (\<lambda>s. \<lparr>hash = hash_key s, key = s, val = None\<rparr>) S"
    using d(2) by (simp add: new_dict_def)
  have g: "get_symbol_names mem nsym = Some (Inr d)"
    unfolding get_symbol_names_def using get_symbol_names_loop_eq [OF assms(2), of ?new] d(1)
    by simp
  have keys: "map key (entries d) = S"
    unfolding es by (simp add: comp_def)
  have after: "map key (entries d') = S
                 \<and> (\<exists>mem' b. reemit d' mem = Some (mem', b)
                       \<and> primaries mem' nsym 0 = ?ps
                       \<and> (\<forall>i<length S.
                             effective_name (entries d' ! i)
                               = (case apply_renames rs (S ! i) None of Some v \<Rightarrow> v | None \<Rightarrow> S ! i)
                             \<and> carries mem' (take (cnt b) (buf b)) (?ps ! i)
                                 (effective_name (entries d' ! i))))"
    if r: "change_symbol_names d rs = Some (Inr d')" for rs d'
  proof -
    from change_symbol_names_entries [OF d(3) r] have
      es': "entries d' = map (\<lambda>s. \<lparr>hash = hash_key s :: 'w word, key = s,
                                     val = apply_renames rs s None\<rparr>) S"
      unfolding es by (simp add: comp_def)
    have keys': "map key (entries d') = S"
      unfolding es' by (simp add: comp_def)
    have len': "length (entries d') = length S"
      unfolding es' by simp
    have eff: "effective_name (entries d' ! i)
                 = (case apply_renames rs (S ! i) None of Some v \<Rightarrow> v | None \<Rightarrow> S ! i)"
      if "i < length S" for i
      unfolding es' using that by (simp add: effective_name_def split: option.split)
    have le: "length (entries d') \<le> length ?ps"
      using len' lenS by simp
    have four: "4 \<le> cnt (new_buf\<lparr>cnt := 4\<rparr>)" by simp
    from emit_loop_correct [OF assms(1) le buf_wf_start four] obtain mem' b0 where
      h: "emit_loop (entries d') 0 mem (new_buf\<lparr>cnt := 4\<rparr>) = Some (mem', b0)"
        "names_rewritten mem mem' (take (length (entries d')) ?ps)"
        "buf_wf b0" "cnt (new_buf\<lparr>cnt := 4\<rparr>) \<le> cnt b0"
        "\<forall>i<length (entries d'). carries mem' (take (cnt b0) (buf b0))
                                (?ps ! i) (effective_name (entries d' ! i))"
      by blast
    let ?b = "b0\<lparr>buf := memcpy (buf b0) 0 (store32 (of_nat (cnt b0)))\<rparr>"
    have re: "reemit d' mem = Some (mem', ?b)"
      using h(1) by (simp add: reemit_def)
    have "\<forall>i<nsym. NumberOfAuxSymbols mem' i = NumberOfAuxSymbols mem i"
      using h(2) assms(1) by (blast intro: names_rewritten_aux)
    then have prim: "primaries mem' nsym 0 = ?ps"
      by (rule primaries_cong)
    have len0: "4 \<le> length (buf b0)"
      using h(3,4) by (simp add: buf_wf_def)
    have hd: "drop 4 (take (cnt ?b) (buf ?b)) = drop 4 (take (cnt b0) (buf b0))"
      using store32_header(2) [OF len0, of "of_nat (cnt b0)"] by (simp add: drop_take)
    have car: "carries mem' (take (cnt ?b) (buf ?b)) (?ps ! i) (effective_name (entries d' ! i))"
      if "i < length S" for i
    proof -
      from that h(5) len' have "carries mem' (take (cnt b0) (buf b0)) (?ps ! i)
                                  (effective_name (entries d' ! i))"
        by simp
      then show ?thesis using hd by (rule carries_header)
    qed
    from keys' re prim eff car show ?thesis by blast
  qed
  from g keys after show ?thesis by blast
qed

theorem order_preserved_witness:
  "sym_addr 4 \<le> length example_image
   \<and> map (symbol_name example_image 4) (primaries example_image 4 0)
       = map Some [bytes_of ''foo'', bytes_of ''bar'', bytes_of ''averylongsymbolname'']
   \<and> distinct [bytes_of ''foo'', bytes_of ''bar'', bytes_of ''averylongsymbolname'']
   \<and> (\<exists>d :: 64 word dict_t.
         get_symbol_names example_image 4 = Some (Inr d)
         \<and> map key (entries d) = [bytes_of ''foo'', bytes_of ''bar'', bytes_of ''averylongsymbolname'']
         \<and> (\<exists>d' mem' b.
               change_symbol_names d [(bytes_of ''foo'', bytes_of ''baz''),
                                      (bytes_of ''averylongsymbolname'', bytes_of ''short'')]
                 = Some (Inr d')
               \<and> reemit d' example_image = Some (mem', b)
               \<and> carries mem' (take (cnt b) (buf b)) 0 (bytes_of ''baz'')
               \<and> carries mem' (take (cnt b) (buf b)) 2 (bytes_of ''bar'')
               \<and> carries mem' (take (cnt b) (buf b)) 3 (bytes_of ''short'')
               \<and> ShortName mem' 0 = bytes_of ''baz'' @ [0, 0, 0, 0, 0]
               \<and> ShortName mem' 2 = bytes_of ''bar'' @ [0, 0, 0, 0, 0]
               \<and> ShortName mem' 3 = bytes_of ''short'' @ [0, 0, 0]))"
proof -
  define foo bar long baz short where
    names: "foo = bytes_of ''foo''" "bar = bytes_of ''bar''"
      "long = bytes_of ''averylongsymbolname''" "baz = bytes_of ''baz''"
      "short = bytes_of ''short''"
  define S where "S = [foo, bar, long]"
  define rs where "rs = [(foo, baz), (long, short)]"
  have neq: "foo \<noteq> bar" "foo \<noteq> long" "bar \<noteq> long"
    by (simp_all add: names bytes_of_def)
  have S_nth: "S ! 0 = foo" "S ! Suc 0 = bar" "S ! 2 = long" and lS: "length S = 3"
    by (simp_all add: S_def)
  have a: "sym_addr 4 \<le> length example_image"
    by (simp add: sym_addr_def IMAGE_SIZEOF_SYMBOL_def example_image_bytes)
  have b: "map (symbol_name example_image 4) (primaries example_image 4 0) = map Some S"
    by (simp add: example_primaries example_names S_def names)
  have c: "distinct S"
    using neq by (simp add: S_def)
  from order_preserved [OF a b c, where 'w = 64] obtain d :: "64 word dict_t" where
    d: "get_symbol_names example_image 4 = Some (Inr d)" "map key (entries d) = S"
      "\<forall>rs d'. change_symbol_names d rs = Some (Inr d') \<longrightarrow>
           map key (entries d') = S
           \<and> (\<exists>mem' b. reemit d' example_image = Some (mem', b)
                 \<and> primaries mem' 4 0 = primaries example_image 4 0
                 \<and> (\<forall>i<length S.
                       effective_name (entries d' ! i)
                         = (case apply_renames rs (S ! i) None of Some v \<Rightarrow> v | None \<Rightarrow> S ! i)
                       \<and> carries mem' (take (cnt b) (buf b)) (primaries example_image 4 0 ! i)
                           (effective_name (entries d' ! i))))"
    by (elim exE conjE) (rule that, assumption+)
  have "dict_add_all (new_dict :: 64 word dict_t) S = Some (Inr d)"
    using get_symbol_names_loop_eq [OF b, of "new_dict :: 64 word dict_t"] d(1)
    by (simp add: get_symbol_names_def)
  with reachable.new have "reachable d" by (rule dict_add_all_reachable)
  then have inv: "dict_inv d" by (rule reachable_inv)
  have "fst ` set rs \<subseteq> set (map key (entries d))"
    unfolding d(2) by (simp add: rs_def S_def)
  from change_symbol_names_succeeds [OF inv this] obtain d' where
    cs: "change_symbol_names d rs = Some (Inr d')"
    by blast
  from d(3) [rule_format, OF cs] have
    "\<exists>mem' b. reemit d' example_image = Some (mem', b)
         \<and> primaries mem' 4 0 = primaries example_image 4 0
         \<and> (\<forall>i<length S.
               effective_name (entries d' ! i)
                 = (case apply_renames rs (S ! i) None of Some v \<Rightarrow> v | None \<Rightarrow> S ! i)
               \<and> carries mem' (take (cnt b) (buf b)) (primaries example_image 4 0 ! i)
                   (effective_name (entries d' ! i)))"
    by (rule conjunct2)
  then obtain mem' b where
    m: "reemit d' example_image = Some (mem', b)"
      "primaries mem' 4 0 = primaries example_image 4 0"
      "\<forall>i<length S.
          effective_name (entries d' ! i)
            = (case apply_renames rs (S ! i) None of Some v \<Rightarrow> v | None \<Rightarrow> S ! i)
          \<and> carries mem' (take (cnt b) (buf b)) (primaries example_image 4 0 ! i)
              (effective_name (entries d' ! i))"
    by (elim exE conjE) (rule that, assumption+)
  have r0: "apply_renames rs foo None = Some baz"
    and r1: "apply_renames rs bar None = None"
    and r2: "apply_renames rs long None = Some short"
    using neq by (simp_all add: rs_def)
  have c0: "carries mem' (take (cnt b) (buf b)) 0 baz"
    using m(3) [rule_format, of 0] lS by (auto simp: example_primaries S_nth r0)
  have c1: "carries mem' (take (cnt b) (buf b)) 2 bar"
    using m(3) [rule_format, of 1] lS by (auto simp: example_primaries S_nth r1)
  have c2: "carries mem' (take (cnt b) (buf b)) 3 short"
    using m(3) [rule_format, of 2] lS by (auto simp: example_primaries S_nth r2)
  have lens: "length baz = 3" "length bar = 3" "length short = 5"
    by (simp_all add: names bytes_of_def)
  have pad: "replicate 5 (0 :: byte) = [0, 0, 0, 0, 0]" "replicate 3 (0 :: byte) = [0, 0, 0]"
    by (simp_all add: numeral_eq_Suc)
  have f0: "ShortName mem' 0 = baz @ [0, 0, 0, 0, 0]"
    using c0 by (simp add: carries_def lens pad)
  have f1: "ShortName mem' 2 = bar @ [0, 0, 0, 0, 0]"
    using c1 by (simp add: carries_def lens pad)
  have f2: "ShortName mem' 3 = short @ [0, 0, 0]"
    using c2 by (simp add: carries_def lens pad)
  show ?thesis
    by (intro conjI exI [of _ d] exI [of _ d'] exI [of _ mem'] exI [of _ b])
      (rule a b [unfolded S_def names] c [unfolded S_def names] d(1) d(2) [unfolded S_def names]
        cs [unfolded rs_def names] m(1) c0 [unfolded names] c1 [unfolded names]
        c2 [unfolded names] f0 [unfolded names] f1 [unfolded names] f2 [unfolded names])+
qed

text \<open>
  When a NUL lies inside the 8 bytes of an inline name, the decoded name is the
  bytes of the field before the first NUL.
\<close>

lemma inline_name_with_nul:
  assumes "Name_Short mem i \<noteq> 0" and "0 \<in> set (ShortName mem i)"
  shows "symbol_name mem nsym i = Some (takeWhile (\<lambda>b. b \<noteq> 0) (ShortName mem i))"
proof -
  let ?r = "drop (sym_addr i) mem"
  have split: "?r = ShortName mem i @ drop 8 ?r"
    unfolding ShortName_def by (rule append_take_drop_id [symmetric])
  from assms(2) obtain x where x: "x \<in> set (ShortName mem i)" "\<not> x \<noteq> 0"
    by auto
  have "takeWhile (\<lambda>b. b \<noteq> 0) (ShortName mem i @ drop 8 ?r)
          = takeWhile (\<lambda>b. b \<noteq> 0) (ShortName mem i)"
    using x by (rule takeWhile_append1)
  then have t: "takeWhile (\<lambda>b. b \<noteq> 0) ?r = takeWhile (\<lambda>b. b \<noteq> 0) (ShortName mem i)"
    using split by simp
  have "0 \<in> set ?r"
    using assms(2) by (subst split) simp
  then show ?thesis
    using assms(1) t by (simp add: symbol_name_def c_string_def)
qed

text \<open>
  C3 (the code departs from it). The symbol table has one record, whose inline name
  is the 8 bytes \<open>abcdefgh\<close> with no NUL among them and whose \<^verbatim>\<open>Value\<close> is 0x41. The
  name that \<^verbatim>\<open>get_symbol_names\<close> passes to \<^verbatim>\<open>dict_add\<close> is read as a C string from
  the start of the field: it runs on into \<^verbatim>\<open>Value\<close>, and the dictionary key is the 9
  bytes \<open>abcdefghA\<close>, not the 8 bytes of the field.
\<close>

theorem inline_name_not_truncated:
  "ShortName (bytes_of ''abcdefgh'' @ [65, 0, 0, 0, 1, 0, 0, 0, 2, 0] @ [4, 0, 0, 0]) 0
     = bytes_of ''abcdefgh''
   \<and> symbol_name (bytes_of ''abcdefgh'' @ [65, 0, 0, 0, 1, 0, 0, 0, 2, 0] @ [4, 0, 0, 0]) 1 0
     = Some (bytes_of ''abcdefghA'')
   \<and> (\<exists>d :: 64 word dict_t.
         get_symbol_names (bytes_of ''abcdefgh'' @ [65, 0, 0, 0, 1, 0, 0, 0, 2, 0] @ [4, 0, 0, 0]) 1
           = Some (Inr d)
         \<and> map key (entries d) = [bytes_of ''abcdefghA''])"
proof -
  define img :: "byte list" where
    "img = bytes_of ''abcdefgh'' @ [65, 0, 0, 0, 1, 0, 0, 0, 2, 0] @ [4, 0, 0, 0]"
  define name :: "byte list" where "name = bytes_of ''abcdefghA''"
  have bytes: "img = [97, 98, 99, 100, 101, 102, 103, 104, 65, 0, 0, 0, 1, 0, 0, 0, 2, 0, 4, 0, 0, 0]"
    by (simp add: img_def bytes_of_def)
  have field: "ShortName img 0 = bytes_of ''abcdefgh''"
    by (simp add: ShortName_def sym_addr_def bytes bytes_of_def)
  have sn: "symbol_name img 1 0 = Some name"
    by (simp add: symbol_name_def Name_Short_def load32_def c_string_def sym_addr_def
        bytes name_def bytes_of_def)
  have aux: "NumberOfAuxSymbols img 0 = 0"
    by (simp add: NumberOfAuxSymbols_def sym_addr_def IMAGE_SIZEOF_SYMBOL_def bytes)
  have "primaries img 1 1 = []" by (simp add: primaries_Nil)
  then have prim: "primaries img 1 0 = [0]"
    using primaries_Cons [of 0 1 img] aux by simp
  have names: "map (symbol_name img 1) (primaries img 1 0) = map Some [name]"
    by (simp only: prim sn list.map)
  have fresh: "set [name] \<inter> set (map key (entries (new_dict :: 64 word dict_t))) = {}"
    by (simp add: new_dict_def)
  have dist: "distinct [name]" by simp
  from dict_add_all_fresh [OF dict_inv_new_dict dist fresh] obtain d :: "64 word dict_t" where
    d: "dict_add_all new_dict [name] = Some (Inr d)"
      "entries d = entries (new_dict :: 64 word dict_t)
                     @ map (\<lambda>s. \<lparr>hash = hash_key s, key = s, val = None\<rparr>) [name]"
    by blast
  have g: "get_symbol_names img 1 = Some (Inr d)"
    unfolding get_symbol_names_def
    using get_symbol_names_loop_eq [OF names, of "new_dict :: 64 word dict_t"] d(1) by simp
  have k: "map key (entries d) = [name]"
    using d(2) by (simp add: new_dict_def)
  have "\<exists>d :: 64 word dict_t. get_symbol_names img 1 = Some (Inr d) \<and> map key (entries d) = [name]"
    using g k by (intro exI [of _ d] conjI)
  with field sn show ?thesis
    unfolding img_def name_def by (intro conjI)
qed

end
